theory Spec2Isabelle
  imports Main "HOL-Library.Char_ord" "HOL-Library.List_Lexorder"
begin

section \<open>Strings of the source language\<close>

text \<open>
  A JavaScript string is modelled as a \<^typ>\<open>string\<close>: a list of code units, restricted to the
  code units 0..255.  The characters the program compares against are all ASCII.
\<close>

abbreviation sq :: char where "sq \<equiv> CHR 0x27"
abbreviation dq :: char where "dq \<equiv> CHR 0x22"
abbreviation bslash :: char where "bslash \<equiv> CHR 0x5C"
abbreviation btick :: char where "btick \<equiv> CHR 0x60"
abbreviation nl :: char where "nl \<equiv> CHR 0x0A"
abbreviation cr :: char where "cr \<equiv> CHR 0x0D"
abbreviation tab :: char where "tab \<equiv> CHR 0x09"

text \<open>\<^verbatim>\<open>s.startsWith(p)\<close>\<close>

definition startsWith :: "string \<Rightarrow> string \<Rightarrow> bool" where
  "startsWith s p = (take (length p) s = p)"

text \<open>\<^verbatim>\<open>s.split(sep)\<close> for a one-character separator: never empty, \<^verbatim>\<open>''.split(sep)\<close> is \<^verbatim>\<open>['']\<close>.\<close>

fun str_split :: "char \<Rightarrow> string \<Rightarrow> string list" where
  "str_split sep [] = [[]]"
| "str_split sep (c # cs) =
     (if c = sep then [] # str_split sep cs
      else (case str_split sep cs of
              [] \<Rightarrow> [[c]]
            | w # ws \<Rightarrow> (c # w) # ws))"

text \<open>\<^verbatim>\<open>xs[0]\<close> of a JavaScript array: \<^verbatim>\<open>undefined\<close> when the array is empty.\<close>

definition first_elem :: "'a list \<Rightarrow> 'a option" where
  "first_elem xs = (case xs of [] \<Rightarrow> None | x # _ \<Rightarrow> Some x)"

section \<open>Specifier classification\<close>

datatype dep_type = Local | Builtin | External

subsection \<open>src/parsers/javascript.js\<close>

definition NODE_BUILTINS :: "string list" where
  "NODE_BUILTINS =
    [''assert'', ''buffer'', ''child_process'', ''cluster'', ''console'', ''constants'',
     ''crypto'', ''dgram'', ''dns'', ''domain'', ''events'', ''fs'', ''http'', ''http2'',
     ''https'', ''module'', ''net'', ''os'', ''path'', ''perf_hooks'', ''process'',
     ''punycode'', ''querystring'', ''readline'', ''repl'', ''stream'', ''string_decoder'',
     ''sys'', ''timers'', ''tls'', ''tty'', ''url'', ''util'', ''v8'', ''vm'', ''wasi'',
     ''worker_threads'', ''zlib'', ''test'', ''node:test'']"

definition isNodeBuiltin :: "string \<Rightarrow> bool" where
  "isNodeBuiltin specifier =
     (if startsWith specifier ''node:'' then True
      else (case first_elem (str_split (CHR ''/'') specifier) of
              None \<Rightarrow> False
            | Some base \<Rightarrow> base \<in> set NODE_BUILTINS))"

definition js_classify :: "string \<Rightarrow> dep_type" where
  "js_classify specifier =
     (if startsWith specifier ''.'' \<or> startsWith specifier ''/'' then Local
      else if isNodeBuiltin specifier then Builtin
      else External)"

subsection \<open>src/parsers/python.js\<close>

definition PYTHON_STDLIB :: "string list" where
  "PYTHON_STDLIB =
    [''abc'', ''argparse'', ''ast'', ''asyncio'', ''base64'', ''bisect'', ''builtins'',
     ''calendar'', ''cmath'', ''codecs'', ''collections'', ''concurrent'', ''configparser'',
     ''contextlib'', ''copy'', ''csv'', ''ctypes'', ''dataclasses'', ''datetime'',
     ''decimal'', ''difflib'', ''email'', ''enum'', ''errno'', ''fcntl'', ''fileinput'',
     ''fnmatch'', ''fractions'', ''ftplib'', ''functools'', ''gc'', ''getpass'', ''glob'',
     ''gzip'', ''hashlib'', ''heapq'', ''hmac'', ''html'', ''http'', ''importlib'',
     ''inspect'', ''io'', ''itertools'', ''json'', ''keyword'', ''linecache'', ''locale'',
     ''logging'', ''lzma'', ''math'', ''mimetypes'', ''multiprocessing'', ''numbers'',
     ''operator'', ''os'', ''pathlib'', ''pdb'', ''pickle'', ''pkgutil'', ''platform'',
     ''pprint'', ''profile'', ''queue'', ''random'', ''re'', ''readline'', ''reprlib'',
     ''secrets'', ''select'', ''shelve'', ''shlex'', ''shutil'', ''signal'', ''site'',
     ''smtplib'', ''socket'', ''sqlite3'', ''ssl'', ''stat'', ''statistics'', ''string'',
     ''struct'', ''subprocess'', ''sys'', ''syslog'', ''tempfile'', ''textwrap'',
     ''threading'', ''time'', ''timeit'', ''tkinter'', ''tomllib'', ''trace'', ''traceback'',
     ''types'', ''typing'', ''unittest'', ''urllib'', ''uuid'', ''venv'', ''warnings'',
     ''weakref'', ''webbrowser'', ''xml'', ''xmlrpc'', ''zipfile'', ''zipimport'', ''zlib'',
     ''_thread'']"

definition py_classify :: "string \<Rightarrow> dep_type" where
  "py_classify specifier =
     (if startsWith specifier ''.'' then Local
      else (case first_elem (str_split (CHR ''.'') specifier) of
              None \<Rightarrow> External
            | Some base \<Rightarrow> if base \<in> set PYTHON_STDLIB then Builtin else External))"


section \<open>Regular expressions of the scanners\<close>

text \<open>
  The scanners search with JavaScript regular expressions.  Only the constructs the
  program's patterns use are modelled: one code unit of a class, sequence, alternative,
  the greedy optional group, the greedy and lazy star, plus and bounded repetition of a
  class, \<^verbatim>\<open>^\<close> under the \<^verbatim>\<open>m\<close> flag and \<^verbatim>\<open>\b\<close>.

  A position of the subject is the pair of the code unit before it (if any) and the text
  from it on.  \<open>ms r\<close> lists the positions at which a match of \<open>r\<close> from a
  position can end, in the order in which a backtracking matcher tries them: the head is
  the match JavaScript reports.
\<close>

definition is_space :: "char \<Rightarrow> bool" where
  "is_space c = (c \<in> set [tab, nl, CHR 0x0B, CHR 0x0C, cr, CHR '' '', CHR 0xA0])"

definition is_word :: "char \<Rightarrow> bool" where
  "is_word c = (c \<in> set ''abcdefghijklmnopqrstuvwxyzABCDEFGHIJKLMNOPQRSTUVWXYZ0123456789_'')"

definition is_quote :: "char \<Rightarrow> bool" where
  "is_quote c = (c = sq \<or> c = dq)"

datatype rx =
    Chr "char \<Rightarrow> bool"
  | Eps
  | Seq rx rx
  | Alt rx rx
  | Opt rx
  | Star "char \<Rightarrow> bool"
  | Plus "char \<Rightarrow> bool"
  | LazyStar "char \<Rightarrow> bool"
  | AtMost nat "char \<Rightarrow> bool"
  | Bol
  | WordB

type_synonym pos = "char option \<times> string"

fun star_greedy :: "(char \<Rightarrow> bool) \<Rightarrow> char option \<Rightarrow> string \<Rightarrow> pos list" where
  "star_greedy p prev [] = [(prev, [])]"
| "star_greedy p prev (c # cs) =
     (if p c then star_greedy p (Some c) cs else []) @ [(prev, c # cs)]"

fun star_lazy :: "(char \<Rightarrow> bool) \<Rightarrow> char option \<Rightarrow> string \<Rightarrow> pos list" where
  "star_lazy p prev [] = [(prev, [])]"
| "star_lazy p prev (c # cs) =
     (prev, c # cs) # (if p c then star_lazy p (Some c) cs else [])"

fun atmost_greedy :: "nat \<Rightarrow> (char \<Rightarrow> bool) \<Rightarrow> char option \<Rightarrow> string \<Rightarrow> pos list" where
  "atmost_greedy 0 p prev rest = [(prev, rest)]"
| "atmost_greedy (Suc n) p prev [] = [(prev, [])]"
| "atmost_greedy (Suc n) p prev (c # cs) =
     (if p c then atmost_greedy n p (Some c) cs else []) @ [(prev, c # cs)]"

definition word_before :: "char option \<Rightarrow> bool" where
  "word_before prev = (case prev of None \<Rightarrow> False | Some c \<Rightarrow> is_word c)"

definition word_after :: "string \<Rightarrow> bool" where
  "word_after rest = (case rest of [] \<Rightarrow> False | c # _ \<Rightarrow> is_word c)"

fun ms :: "rx \<Rightarrow> pos \<Rightarrow> pos list" where
  "ms (Chr p) (prev, rest) =
     (case rest of [] \<Rightarrow> [] | c # cs \<Rightarrow> if p c then [(Some c, cs)] else [])"
| "ms Eps s = [s]"
| "ms (Seq a b) s = concat (map (ms b) (ms a s))"
| "ms (Alt a b) s = ms a s @ ms b s"
| "ms (Opt a) s = ms a s @ [s]"
| "ms (Star p) (prev, rest) = star_greedy p prev rest"
| "ms (Plus p) (prev, rest) =
     (case rest of [] \<Rightarrow> [] | c # cs \<Rightarrow> if p c then star_greedy p (Some c) cs else [])"
| "ms (LazyStar p) (prev, rest) = star_lazy p prev rest"
| "ms (AtMost n p) (prev, rest) = atmost_greedy n p prev rest"
| "ms Bol (prev, rest) =
     (if prev = None \<or> prev = Some nl \<or> prev = Some cr then [(prev, rest)] else [])"
| "ms WordB (prev, rest) =
     (if word_before prev \<noteq> word_after rest then [(prev, rest)] else [])"

definition chr :: "char \<Rightarrow> rx" where
  "chr c = Chr (\<lambda>x. x = c)"

definition lit :: "string \<Rightarrow> rx" where
  "lit s = foldr (\<lambda>c r. Seq (chr c) r) s Eps"

definition seq :: "rx list \<Rightarrow> rx" where
  "seq rs = foldr Seq rs Eps"

text \<open>
  A pattern with one capture group at the top level of its sequence:
  \<^verbatim>\<open>/before(group)after/\<close>.  A match yields the text of the group and the end position.
\<close>

record pattern =
  before :: rx
  group :: rx
  after :: rx

definition pmatch :: "pattern \<Rightarrow> char option \<Rightarrow> string \<Rightarrow> (string \<times> pos) list" where
  "pmatch pat prev rest =
     concat (map (\<lambda>s1.
       concat (map (\<lambda>s2.
         map (\<lambda>s3. (take (length (snd s1) - length (snd s2)) (snd s1), s3))
             (ms (after pat) s2))
         (ms (group pat) s1)))
       (ms (before pat) (prev, rest)))"

text \<open>
  The leftmost match: the matcher is tried at every start position from the current one
  to the end of the subject (inclusive).  The result carries the text skipped.
\<close>

fun leftmost :: "(char option \<Rightarrow> string \<Rightarrow> 'a list) \<Rightarrow> char option \<Rightarrow> string \<Rightarrow> (string \<times> 'a) option" where
  "leftmost m prev [] = (case m prev [] of [] \<Rightarrow> None | x # _ \<Rightarrow> Some ([], x))"
| "leftmost m prev (c # cs) =
     (case m prev (c # cs) of
        x # _ \<Rightarrow> Some ([], x)
      | [] \<Rightarrow> (case leftmost m (Some c) cs of
                 None \<Rightarrow> None
               | Some (skipped, x) \<Rightarrow> Some (c # skipped, x)))"

text \<open>
  \<^verbatim>\<open>re.exec(s)\<close> of a global pattern with \<^verbatim>\<open>lastIndex\<close> at the position \<open>(prev, rest)\<close>:
  \<^verbatim>\<open>null\<close>, or \<^verbatim>\<open>match[1]\<close> and the position of the new \<^verbatim>\<open>lastIndex\<close>, the end of the match.
\<close>

definition exec :: "pattern \<Rightarrow> char option \<Rightarrow> string \<Rightarrow> (string \<times> pos) option" where
  "exec pat prev rest = map_option snd (leftmost (pmatch pat) prev rest)"

text \<open>
  \<^verbatim>\<open>while ((match = re.exec(stripped)) !== null) { body }\<close>.  Nothing in the loop moves
  \<^verbatim>\<open>lastIndex\<close> but \<^verbatim>\<open>exec\<close> itself, so a pattern that matches the empty text would
  keep the loop at one position for ever: not returning is \<open>None\<close>.
\<close>

partial_function (option) exec_loop ::
  "pattern \<Rightarrow> (string \<Rightarrow> string list \<Rightarrow> string list) \<Rightarrow> char option \<Rightarrow> string \<Rightarrow> string list \<Rightarrow> string list option" where
  "exec_loop pat body prev rest deps =
     (case exec pat prev rest of
        None \<Rightarrow> Some deps
      | Some (m1, (prev', rest')) \<Rightarrow> exec_loop pat body prev' rest' (body m1 deps))"

declare exec_loop.simps [code]

text \<open>\<^verbatim>\<open>deps.add(x)\<close> on a \<^verbatim>\<open>Set\<close>, which keeps insertion order.\<close>

definition set_add :: "'a \<Rightarrow> 'a list \<Rightarrow> 'a list" where
  "set_add x xs = (if x \<in> set xs then xs else xs @ [x])"

text \<open>\<^verbatim>\<open>s.trim()\<close>\<close>

definition trim :: "string \<Rightarrow> string" where
  "trim s = rev (dropWhile is_space (rev (dropWhile is_space s)))"

section \<open>src/parsers/javascript.js\<close>

text \<open>
  \<^verbatim>\<open>stripComments\<close>.  The index \<^verbatim>\<open>i\<close> into \<^verbatim>\<open>source\<close> is the suffix of the source from
  \<^verbatim>\<open>i\<close> on; \<^verbatim>\<open>source[i + 1]\<close> beyond the end is \<^verbatim>\<open>undefined\<close> and equals no character.
\<close>

fun skip_block :: "string \<Rightarrow> string" where
  "skip_block [] = []"
| "skip_block (c # cs) =
     (if c = CHR ''*'' \<and> first_elem cs = Some (CHR ''/'') then c # cs else skip_block cs)"

text \<open>
  The loop that copies a string or template body up to the closing quote:
  the text appended to \<^verbatim>\<open>result\<close> and the rest of the source.
\<close>

fun js_copy_quoted :: "char \<Rightarrow> string \<Rightarrow> string \<times> string" where
  "js_copy_quoted quote [] = ([], [])"
| "js_copy_quoted quote (c # cs) =
     (if c = quote then ([], c # cs)
      else if c = bslash then
        (case cs of
           [] \<Rightarrow> ([c], [])
         | d # ds \<Rightarrow> (case js_copy_quoted quote ds of (out, rest) \<Rightarrow> (c # d # out, rest)))
      else (case js_copy_quoted quote cs of (out, rest) \<Rightarrow> (c # out, rest)))"

text \<open>
  A whole literal from its opening quote \<open>c\<close>: the opening quote, the body, and the closing
  quote when the source has one (\<^verbatim>\<open>if (i < source.length) result += source[i++]\<close>).
\<close>

definition js_quoted :: "char \<Rightarrow> string \<Rightarrow> string \<times> string" where
  "js_quoted c cs =
     (case js_copy_quoted c cs of
        (out, rest) \<Rightarrow>
          (case rest of
             [] \<Rightarrow> (c # out, [])
           | d # ds \<Rightarrow> (c # out @ [d], ds)))"

lemma length_skip_block: "length (skip_block xs) \<le> length xs"
  by (induction xs) auto

lemma length_js_copy_quoted: "length (snd (js_copy_quoted q xs)) \<le> length xs"
  by (induction q xs rule: js_copy_quoted.induct)
     (simp_all add: case_prod_unfold le_SucI split: list.split)

lemma length_js_quoted: "length (snd (js_quoted q xs)) \<le> length xs"
  using length_js_copy_quoted[of q xs]
  by (auto simp: js_quoted_def case_prod_unfold split: list.split)

lemma length_dropWhile_le': "length (dropWhile P xs) \<le> length xs"
  by (induction xs) auto

function js_strip_loop :: "string \<Rightarrow> string \<Rightarrow> string" where
  "js_strip_loop [] result = result"
| "js_strip_loop (c # cs) result =
     (if c = CHR ''/'' \<and> first_elem cs = Some (CHR ''/'')
      then js_strip_loop (dropWhile (\<lambda>x. x \<noteq> nl) cs) result
      else if c = CHR ''/'' \<and> first_elem cs = Some (CHR ''*'')
      then js_strip_loop (drop 2 (skip_block (drop 1 cs))) result
      else if c = btick
      then js_strip_loop (snd (js_quoted btick cs)) (result @ fst (js_quoted btick cs))
      else if c = dq \<or> c = sq
      then js_strip_loop (snd (js_quoted c cs)) (result @ fst (js_quoted c cs))
      else js_strip_loop cs (result @ [c]))"
  by pat_completeness auto
termination
proof (relation "measure (\<lambda>(src, result). length src)", goal_cases)
  case 1
  show ?case by simp
next
  case (2 c cs result)
  show ?case using length_dropWhile_le'[of "\<lambda>x. x \<noteq> nl" cs] by simp
next
  case (3 c cs result)
  show ?case using length_skip_block[of "drop 1 cs"] by simp
next
  case (4 c cs result)
  show ?case using length_js_quoted[of btick cs] by simp
next
  case (5 c cs result)
  show ?case using length_js_quoted[of c cs] by simp
next
  case (6 c cs result)
  show ?case by simp
qed

definition js_stripComments :: "string \<Rightarrow> string" where
  "js_stripComments source = js_strip_loop source []"

definition any_char :: "char \<Rightarrow> bool" where
  "any_char c = True"

definition not_quote :: "char \<Rightarrow> bool" where
  "not_quote c = (\<not> is_quote c)"

text \<open>\<^verbatim>\<open>/(?:^|;|\})\s*import\s+(?:[\s\S]*?\s+from\s+)?['"]([^'"]+)['"]/gm\<close>\<close>

definition esImport :: pattern where
  "esImport =
     \<lparr> before = seq [Alt Bol (Alt (chr (CHR '';'')) (chr (CHR ''}''))), Star is_space,
                      lit ''import'', Plus is_space,
                      Opt (seq [LazyStar any_char, Plus is_space, lit ''from'', Plus is_space]),
                      Chr is_quote],
       group = Plus not_quote,
       after = Chr is_quote \<rparr>"

text \<open>\<^verbatim>\<open>/(?:^|;|\})\s*export\s+(?:[\s\S]*?\s+from\s+)?['"]([^'"]+)['"]/gm\<close>\<close>

definition esExport :: pattern where
  "esExport =
     \<lparr> before = seq [Alt Bol (Alt (chr (CHR '';'')) (chr (CHR ''}''))), Star is_space,
                      lit ''export'', Plus is_space,
                      Opt (seq [LazyStar any_char, Plus is_space, lit ''from'', Plus is_space]),
                      Chr is_quote],
       group = Plus not_quote,
       after = Chr is_quote \<rparr>"

text \<open>\<^verbatim>\<open>/(?:^|[^.\w])require\s*\(\s*['"]([^'"]+)['"]\s*\)/gm\<close>\<close>

definition cjsRequire :: pattern where
  "cjsRequire =
     \<lparr> before = seq [Alt Bol (Chr (\<lambda>c. c \<noteq> CHR ''.'' \<and> \<not> is_word c)),
                      lit ''require'', Star is_space, chr (CHR ''(''), Star is_space,
                      Chr is_quote],
       group = Plus not_quote,
       after = seq [Chr is_quote, Star is_space, chr (CHR '')'')] \<rparr>"

text \<open>\<^verbatim>\<open>/\bimport\s*\(\s*['"]([^'"]+)['"]\s*\)/gm\<close>\<close>

definition dynamicImport :: pattern where
  "dynamicImport =
     \<lparr> before = seq [WordB, lit ''import'', Star is_space, chr (CHR ''(''), Star is_space,
                      Chr is_quote],
       group = Plus not_quote,
       after = seq [Chr is_quote, Star is_space, chr (CHR '')'')] \<rparr>"

text \<open>\<^verbatim>\<open>parse(source)\<close>: four loops over the stripped text, each from \<^verbatim>\<open>lastIndex = 0\<close>.\<close>

definition js_parse :: "string \<Rightarrow> string list option" where
  "js_parse source =
     (let stripped = js_stripComments source
      in Option.bind (exec_loop esImport set_add None stripped []) (\<lambda>deps1.
         Option.bind (exec_loop esExport set_add None stripped deps1) (\<lambda>deps2.
         Option.bind (exec_loop cjsRequire set_add None stripped deps2) (\<lambda>deps3.
         exec_loop dynamicImport set_add None stripped deps3))))"

section \<open>src/parsers/python.js\<close>

text \<open>\<^verbatim>\<open>while (i < source.length && source.slice(i, i + 3) !== quote) i++\<close>\<close>

fun skip_triple :: "string \<Rightarrow> string \<Rightarrow> string" where
  "skip_triple quote [] = []"
| "skip_triple quote (c # cs) =
     (if take 3 (c # cs) = quote then c # cs else skip_triple quote cs)"

text \<open>
  The string loop of the Python scanner has no bounds check after a backslash:
  \<^verbatim>\<open>result += source[i++]\<close> past the end appends the text \<^verbatim>\<open>undefined\<close>.
\<close>

fun py_copy_quoted :: "char \<Rightarrow> string \<Rightarrow> string \<times> string" where
  "py_copy_quoted quote [] = ([], [])"
| "py_copy_quoted quote (c # cs) =
     (if c = quote then ([], c # cs)
      else if c = bslash then
        (case cs of
           [] \<Rightarrow> (c # ''undefined'', [])
         | d # ds \<Rightarrow> (case py_copy_quoted quote ds of (out, rest) \<Rightarrow> (c # d # out, rest)))
      else (case py_copy_quoted quote cs of (out, rest) \<Rightarrow> (c # out, rest)))"

definition py_quoted :: "char \<Rightarrow> string \<Rightarrow> string \<times> string" where
  "py_quoted c cs =
     (case py_copy_quoted c cs of
        (out, rest) \<Rightarrow>
          (case rest of
             [] \<Rightarrow> (c # out, [])
           | d # ds \<Rightarrow> (c # out @ [d], ds)))"

lemma length_skip_triple: "length (skip_triple q xs) \<le> length xs"
  by (induction xs) auto

lemma length_py_copy_quoted: "length (snd (py_copy_quoted q xs)) \<le> length xs"
  by (induction q xs rule: py_copy_quoted.induct)
     (simp_all add: case_prod_unfold le_SucI split: list.split)

lemma length_py_quoted: "length (snd (py_quoted q xs)) \<le> length xs"
  using length_py_copy_quoted[of q xs]
  by (auto simp: py_quoted_def case_prod_unfold split: list.split)

function py_strip_loop :: "string \<Rightarrow> string \<Rightarrow> string" where
  "py_strip_loop [] result = result"
| "py_strip_loop (c # cs) result =
     (if (c = dq \<and> take 2 cs = [dq, dq]) \<or> (c = sq \<and> take 2 cs = [sq, sq])
      then py_strip_loop (drop 3 (skip_triple (take 3 (c # cs)) (drop 2 cs))) (result @ [dq, dq])
      else if c = CHR ''#''
      then py_strip_loop (dropWhile (\<lambda>x. x \<noteq> nl) cs) result
      else if c = dq \<or> c = sq
      then py_strip_loop (snd (py_quoted c cs)) (result @ fst (py_quoted c cs))
      else py_strip_loop cs (result @ [c]))"
  by pat_completeness auto
termination
proof (relation "measure (\<lambda>(src, result). length src)", goal_cases)
  case 1
  show ?case by simp
next
  case (2 c cs result)
  show ?case using length_skip_triple[of "take 3 (c # cs)" "drop 2 cs"] by simp
next
  case (3 c cs result)
  show ?case using length_dropWhile_le'[of "\<lambda>x. x \<noteq> nl" cs] by simp
next
  case (4 c cs result)
  show ?case using length_py_quoted[of c cs] by simp
next
  case (5 c cs result)
  show ?case by simp
qed

definition py_stripComments :: "string \<Rightarrow> string" where
  "py_stripComments source = py_strip_loop source []"

definition blank :: "char \<Rightarrow> bool" where
  "blank c = (c = CHR '' '' \<or> c = tab)"

definition word_or_dot :: "char \<Rightarrow> bool" where
  "word_or_dot c = (is_word c \<or> c = CHR ''.'')"

text \<open>\<^verbatim>\<open>/^[ \t]*from\s+(\.{0,3}[\w.]*)\s+import\s/gm\<close>\<close>

definition fromPattern :: pattern where
  "fromPattern =
     \<lparr> before = seq [Bol, Star blank, lit ''from'', Plus is_space],
       group = seq [AtMost 3 (\<lambda>c. c = CHR ''.''), Star word_or_dot],
       after = seq [Plus is_space, lit ''import'', Chr is_space] \<rparr>"

text \<open>\<^verbatim>\<open>/^[ \t]*import\s+([\w.][\w., \t]*)/gm\<close>\<close>

definition importPattern :: pattern where
  "importPattern =
     \<lparr> before = seq [Bol, Star blank, lit ''import'', Plus is_space],
       group = seq [Chr word_or_dot,
                    Star (\<lambda>c. is_word c \<or> c = CHR ''.'' \<or> c = CHR '','' \<or> c = CHR '' '' \<or> c = tab)],
       after = Eps \<rparr>"

text \<open>\<^verbatim>\<open>const mod = match[1].trim(); if (mod) deps.add(mod);\<close>\<close>

definition from_body :: "string \<Rightarrow> string list \<Rightarrow> string list" where
  "from_body m1 deps = (let m = trim m1 in if m \<noteq> [] then set_add m deps else deps)"

text \<open>
  \<^verbatim>\<open>s.split(/\s+as\s+/)[0]\<close>: the text before the leftmost match of the separator, the
  whole text when there is none.
\<close>

definition as_separator :: rx where
  "as_separator = seq [Plus is_space, lit ''as'', Plus is_space]"

definition split_as_first :: "string \<Rightarrow> string" where
  "split_as_first s =
     (case leftmost (\<lambda>prev rest. ms as_separator (prev, rest)) None s of
        None \<Rightarrow> s
      | Some (skipped, _) \<Rightarrow> skipped)"

text \<open>
  The body of the inner \<^verbatim>\<open>for (const m of modules)\<close>; \<^verbatim>\<open>/^[\w.]+$/.test(name)\<close> holds
  of a non-empty text of word characters and dots.
\<close>

definition import_name :: "string list \<Rightarrow> string \<Rightarrow> string list" where
  "import_name deps m =
     (let name = trim (split_as_first (trim m))
      in if name \<noteq> [] \<and> list_all word_or_dot name then set_add name deps else deps)"

definition import_body :: "string \<Rightarrow> string list \<Rightarrow> string list" where
  "import_body m1 deps = foldl import_name deps (str_split (CHR '','') m1)"

definition py_parse :: "string \<Rightarrow> string list option" where
  "py_parse source =
     (let stripped = py_stripComments source
      in Option.bind (exec_loop fromPattern from_body None stripped []) (\<lambda>deps1.
         exec_loop importPattern import_body None stripped deps1))"

section \<open>The host: Node's \<^verbatim>\<open>fs\<close>, \<^verbatim>\<open>path\<close> and \<^verbatim>\<open>process\<close> modules\<close>

text \<open>
  The graph builder sees the filesystem and the path algebra only through library calls.
  They are the fields of a record that every operation takes as its first argument:
  \<^verbatim>\<open>fs.existsSync(p)\<close>, \<^verbatim>\<open>fs.statSync(p).isFile()\<close>, \<^verbatim>\<open>fs.statSync(p).isDirectory()\<close>
  (both only called after \<^verbatim>\<open>existsSync\<close> answered true), \<^verbatim>\<open>fs.readFileSync(p, 'utf-8')\<close>,
  which throws or returns the text, the functions of \<^verbatim>\<open>path\<close>, and \<^verbatim>\<open>process.cwd()\<close>.
\<close>

datatype js_error = FsError string

record env =
  existsSync :: "string \<Rightarrow> bool"
  isFile :: "string \<Rightarrow> bool"
  isDirectory :: "string \<Rightarrow> bool"
  readFileSync :: "string \<Rightarrow> js_error + string"
  path_isAbsolute :: "string \<Rightarrow> bool"
  path_dirname :: "string \<Rightarrow> string"
  path_extname :: "string \<Rightarrow> string"
  path_resolve :: "string \<Rightarrow> string \<Rightarrow> string"
  path_relative :: "string \<Rightarrow> string \<Rightarrow> string"
  path_join :: "string \<Rightarrow> string \<Rightarrow> string"
  process_cwd :: string

text \<open>\<^verbatim>\<open>s.toLowerCase()\<close> on code units below 256: A-Z and the upper-case letters of Latin-1.\<close>

definition lower_char :: "char \<Rightarrow> char" where
  "lower_char c =
     (let n = (of_char c :: nat)
      in if (65 \<le> n \<and> n \<le> 90) \<or> (192 \<le> n \<and> n \<le> 222 \<and> n \<noteq> 215)
         then char_of (n + 32) else c)"

definition toLowerCase :: "string \<Rightarrow> string" where
  "toLowerCase s = map lower_char s"

section \<open>src/graph.js: language detection and local resolution\<close>

datatype language = JavaScript | Python

fun EXTENSIONS :: "language \<Rightarrow> string list" where
  "EXTENSIONS JavaScript = [''.js'', ''.mjs'', ''.cjs'', ''.jsx'', ''.ts'', ''.tsx'', ''.mts'', ''.cts'']"
| "EXTENSIONS Python = [''.py'']"

text \<open>\<^verbatim>\<open>Object.entries(EXTENSIONS)\<close> lists the keys in insertion order.\<close>

definition EXTENSIONS_entries :: "language list" where
  "EXTENSIONS_entries = [JavaScript, Python]"

definition detectLanguage :: "env \<Rightarrow> string \<Rightarrow> language option" where
  "detectLanguage env filePath =
     (let ext = toLowerCase (path_extname env filePath)
      in find (\<lambda>lang. ext \<in> set (EXTENSIONS lang)) EXTENSIONS_entries)"

text \<open>The locals \<^verbatim>\<open>target\<close> and \<^verbatim>\<open>exts\<close> of \<^verbatim>\<open>resolveLocal\<close>.\<close>

definition resolve_target :: "env \<Rightarrow> string \<Rightarrow> string \<Rightarrow> string" where
  "resolve_target env specifier fromFile =
     path_resolve env (path_dirname env fromFile) specifier"

definition resolve_exts :: "env \<Rightarrow> string \<Rightarrow> string list" where
  "resolve_exts env fromFile =
     (case detectLanguage env fromFile of None \<Rightarrow> [] | Some lang \<Rightarrow> EXTENSIONS lang)"

text \<open>\<^verbatim>\<open>fs.existsSync(p) && fs.statSync(p).isFile()\<close> and its directory sibling.\<close>

definition regular_file :: "env \<Rightarrow> string \<Rightarrow> bool" where
  "regular_file env p = (existsSync env p \<and> isFile env p)"

definition directory :: "env \<Rightarrow> string \<Rightarrow> bool" where
  "directory env p = (existsSync env p \<and> isDirectory env p)"

text \<open>
  \<^verbatim>\<open>resolveLocal(specifier, fromFile, rootDir)\<close>; \<^verbatim>\<open>null\<close> is \<open>None\<close>.  A \<^verbatim>\<open>for\<close> loop
  that returns at the first hit is \<^const>\<open>find\<close>.
\<close>

definition resolveLocal :: "env \<Rightarrow> string \<Rightarrow> string \<Rightarrow> string \<Rightarrow> string option" where
  "resolveLocal env specifier fromFile rootDir =
     (let target = resolve_target env specifier fromFile;
          exts = resolve_exts env fromFile
      in if regular_file env target then Some (path_relative env rootDir target)
         else (case find (\<lambda>ext. regular_file env (target @ ext)) exts of
                 Some ext \<Rightarrow> Some (path_relative env rootDir (target @ ext))
               | None \<Rightarrow>
                   if directory env target
                   then (case find (\<lambda>ext. existsSync env (path_join env target (''index'' @ ext))) exts of
                           Some ext \<Rightarrow> Some (path_relative env rootDir (path_join env target (''index'' @ ext)))
                         | None \<Rightarrow> None)
                   else None))"

section \<open>A POSIX host built from a finite table of paths\<close>

text \<open>
  An instance of the host for concrete scenarios: the filesystem is a table from absolute
  paths to nodes, and the path functions follow \<^verbatim>\<open>path.posix\<close> of Node.
\<close>

datatype fsnode = File string | Dir

definition intercalate :: "string \<Rightarrow> string list \<Rightarrow> string" where
  "intercalate sep xs = (case xs of [] \<Rightarrow> [] | y # ys \<Rightarrow> foldl (\<lambda>acc s. acc @ sep @ s) y ys)"

definition segments :: "string \<Rightarrow> string list" where
  "segments p = filter (\<lambda>s. s \<noteq> []) (str_split (CHR ''/'') p)"

text \<open>\<^verbatim>\<open>normalizeString\<close>: the accumulator holds the segments kept so far, last first.\<close>

fun normalizeSegments :: "bool \<Rightarrow> string list \<Rightarrow> string list \<Rightarrow> string list" where
  "normalizeSegments allowAboveRoot acc [] = rev acc"
| "normalizeSegments allowAboveRoot acc (s # ss) =
     (if s = ''.'' then normalizeSegments allowAboveRoot acc ss
      else if s = ''..'' then
        (case acc of
           a # as \<Rightarrow>
             if a \<noteq> ''..'' then normalizeSegments allowAboveRoot as ss
             else if allowAboveRoot then normalizeSegments allowAboveRoot (''..'' # acc) ss
             else normalizeSegments allowAboveRoot acc ss
         | [] \<Rightarrow>
             if allowAboveRoot then normalizeSegments allowAboveRoot [''..''] ss
             else normalizeSegments allowAboveRoot [] ss)
      else normalizeSegments allowAboveRoot (s # acc) ss)"

definition posix_isAbsolute :: "string \<Rightarrow> bool" where
  "posix_isAbsolute p = startsWith p ''/''"

definition posix_resolve :: "string \<Rightarrow> string \<Rightarrow> string \<Rightarrow> string" where
  "posix_resolve cwd a b =
     (let p1 = b @ ''/'';
          p2 = (if posix_isAbsolute b \<or> a = [] then p1 else a @ ''/'' @ p1);
          abs2 = (posix_isAbsolute b \<or> posix_isAbsolute a);
          p3 = (if abs2 \<or> cwd = [] then p2 else cwd @ ''/'' @ p2);
          abs3 = (abs2 \<or> posix_isAbsolute cwd);
          n = intercalate ''/'' (normalizeSegments (\<not> abs3) [] (segments p3))
      in if abs3 then ''/'' @ n else if n = [] then ''.'' else n)"

fun dropCommon :: "string list \<Rightarrow> string list \<Rightarrow> string list \<times> string list" where
  "dropCommon (x # xs) (y # ys) = (if x = y then dropCommon xs ys else (x # xs, y # ys))"
| "dropCommon xs ys = (xs, ys)"

definition posix_relative :: "string \<Rightarrow> string \<Rightarrow> string \<Rightarrow> string" where
  "posix_relative cwd from to =
     (let f = posix_resolve cwd [] from;
          t = posix_resolve cwd [] to
      in if f = t then []
         else (case dropCommon (segments f) (segments t) of
                 (fs, ts) \<Rightarrow> intercalate ''/'' (map (\<lambda>_. ''..'') fs @ ts)))"

definition posix_normalize :: "string \<Rightarrow> string" where
  "posix_normalize p =
     (if p = [] then ''.''
      else let isAbs = posix_isAbsolute p;
               trailing = (last p = CHR ''/'');
               n = intercalate ''/'' (normalizeSegments (\<not> isAbs) [] (segments p))
           in if n = [] then (if isAbs then ''/'' else if trailing then ''./'' else ''.'')
              else (if isAbs then ''/'' else []) @ n @ (if trailing then ''/'' else []))"

definition posix_join :: "string \<Rightarrow> string \<Rightarrow> string" where
  "posix_join a b =
     (if a = [] \<and> b = [] then ''.''
      else if a = [] then posix_normalize b
      else if b = [] then posix_normalize a
      else posix_normalize (a @ ''/'' @ b))"

definition posix_dirname :: "string \<Rightarrow> string" where
  "posix_dirname p =
     (if p = [] then ''.''
      else let hasRoot = (hd p = CHR ''/'');
               r = dropWhile (\<lambda>c. c \<noteq> CHR ''/'') (dropWhile (\<lambda>c. c = CHR ''/'') (rev (tl p)))
           in if r = [] then (if hasRoot then ''/'' else ''.'')
              else if hasRoot \<and> length r = 1 then ''//''
              else take (length r) p)"

definition posix_basename :: "string \<Rightarrow> string" where
  "posix_basename p =
     rev (takeWhile (\<lambda>c. c \<noteq> CHR ''/'') (dropWhile (\<lambda>c. c = CHR ''/'') (rev p)))"

definition posix_extname :: "string \<Rightarrow> string" where
  "posix_extname p =
     (let b = posix_basename p;
          ext = rev (takeWhile (\<lambda>c. c \<noteq> CHR ''.'') (rev b))
      in if CHR ''.'' \<notin> set b then []
         else if length ext + 1 = length b then []
         else if b = ''..'' then []
         else CHR ''.'' # ext)"

definition posix :: "string \<Rightarrow> (string \<times> fsnode) list \<Rightarrow> env" where
  "posix cwd files =
     \<lparr> existsSync = (\<lambda>p. map_of files p \<noteq> None),
       isFile = (\<lambda>p. case map_of files p of Some (File _) \<Rightarrow> True | _ \<Rightarrow> False),
       isDirectory = (\<lambda>p. map_of files p = Some Dir),
       readFileSync = (\<lambda>p. case map_of files p of
                              Some (File text) \<Rightarrow> Inr text
                            | Some Dir \<Rightarrow> Inl (FsError ''EISDIR'')
                            | None \<Rightarrow> Inl (FsError ''ENOENT'')),
       path_isAbsolute = posix_isAbsolute,
       path_dirname = posix_dirname,
       path_extname = posix_extname,
       path_resolve = posix_resolve cwd,
       path_relative = posix_relative cwd,
       path_join = posix_join,
       process_cwd = cwd \<rparr>"

text \<open>A segment of a normalised path: not empty, no separator, neither \<^verbatim>\<open>.\<close> nor \<^verbatim>\<open>..\<close>.\<close>

definition plain_segment :: "string \<Rightarrow> bool" where
  "plain_segment s \<longleftrightarrow> s \<noteq> [] \<and> CHR ''/'' \<notin> set s \<and> s \<noteq> ''.'' \<and> s \<noteq> ''..''"

section \<open>src/graph.js: the graph builder\<close>

text \<open>\<^verbatim>\<open>PARSER_MAP\<close>: the scanner and the classifier of each language.\<close>

fun parser_parse :: "language \<Rightarrow> string \<Rightarrow> string list option" where
  "parser_parse JavaScript = js_parse"
| "parser_parse Python = py_parse"

fun parser_classify :: "language \<Rightarrow> string \<Rightarrow> dep_type" where
  "parser_classify JavaScript = js_classify"
| "parser_classify Python = py_classify"

text \<open>
  \<^verbatim>\<open>maxDepth\<close> is a JavaScript number, \<^verbatim>\<open>Infinity\<close> by default.  The program only
  evaluates \<^verbatim>\<open>depth < maxDepth\<close> for a natural number \<^verbatim>\<open>depth\<close>.
\<close>

datatype depth_limit = Infinity | Limit int

fun depth_below :: "nat \<Rightarrow> depth_limit \<Rightarrow> bool" where
  "depth_below depth Infinity = True"
| "depth_below depth (Limit n) = (int depth < n)"

record options =
  rootDir :: string
  includeExternal :: bool
  includeBuiltin :: bool
  maxDepth :: depth_limit

definition default_options :: "env \<Rightarrow> options" where
  "default_options env =
     \<lparr> rootDir = process_cwd env, includeExternal = False, includeBuiltin = False,
       maxDepth = Infinity \<rparr>"

record node =
  node_path :: string
  node_language :: language
  node_depCount :: nat

record edge =
  edge_from :: string
  edge_to :: string
  edge_specifier :: string
  edge_type :: dep_type

record unresolved_import =
  unresolved_from :: string
  unresolved_specifier :: string

text \<open>
  The locals of \<^verbatim>\<open>buildGraph\<close>.  \<^verbatim>\<open>nodes\<close> is a \<^verbatim>\<open>Map\<close> in insertion order,
  \<^verbatim>\<open>externals\<close> and \<^verbatim>\<open>builtins\<close> are \<^verbatim>\<open>Set\<close>s in insertion order.  \<open>scanned\<close> is
  not a variable of the program: it logs, for every file the loop reads and scans, the
  root-relative path and the file, so that the scans can be counted.
\<close>

record build_state =
  nodes :: "(string \<times> node) list"
  edges :: "edge list"
  externals :: "string list"
  builtins :: "string list"
  unresolved :: "unresolved_import list"
  queue :: "(string \<times> nat) list"
  visited :: "string set"
  scanned :: "(string \<times> string) list"

text \<open>\<^verbatim>\<open>m.set(k, v)\<close> on a \<^verbatim>\<open>Map\<close>: an existing key keeps its place.\<close>

definition map_set :: "'k \<Rightarrow> 'v \<Rightarrow> ('k \<times> 'v) list \<Rightarrow> ('k \<times> 'v) list" where
  "map_set k v m =
     (if k \<in> fst ` set m then map (\<lambda>(k', v'). if k' = k then (k', v) else (k', v')) m
      else m @ [(k, v)])"

text \<open>
  The body of \<^verbatim>\<open>for (const dep of deps)\<close>.  \<^verbatim>\<open>if (resolved)\<close> is false for
  \<^verbatim>\<open>null\<close> and for the empty string.
\<close>

definition processDep ::
  "env \<Rightarrow> options \<Rightarrow> language \<Rightarrow> string \<Rightarrow> string \<Rightarrow> nat \<Rightarrow> build_state \<Rightarrow> string \<Rightarrow> build_state" where
  "processDep env opts lang file relPath depth st dep =
     (case parser_classify lang dep of
        Local \<Rightarrow>
          (case resolveLocal env dep file (rootDir opts) of
             Some resolved \<Rightarrow>
               if resolved \<noteq> [] then
                 st\<lparr> edges := edges st @
                       [\<lparr> edge_from = relPath, edge_to = resolved, edge_specifier = dep,
                          edge_type = Local \<rparr>],
                     queue := (if depth_below depth (maxDepth opts)
                               then queue st @ [(path_resolve env (rootDir opts) resolved, depth + 1)]
                               else queue st) \<rparr>
               else st\<lparr> unresolved := unresolved st @
                       [\<lparr> unresolved_from = relPath, unresolved_specifier = dep \<rparr>] \<rparr>
           | None \<Rightarrow>
               st\<lparr> unresolved := unresolved st @
                     [\<lparr> unresolved_from = relPath, unresolved_specifier = dep \<rparr>] \<rparr>)
      | External \<Rightarrow>
          st\<lparr> externals := set_add dep (externals st),
              edges := (if includeExternal opts
                        then edges st @
                          [\<lparr> edge_from = relPath, edge_to = ''[ext] '' @ dep, edge_specifier = dep,
                             edge_type = External \<rparr>]
                        else edges st) \<rparr>
      | Builtin \<Rightarrow>
          st\<lparr> builtins := set_add dep (builtins st),
              edges := (if includeBuiltin opts
                        then edges st @
                          [\<lparr> edge_from = relPath, edge_to = ''[builtin] '' @ dep, edge_specifier = dep,
                             edge_type = Builtin \<rparr>]
                        else edges st) \<rparr>)"

text \<open>
  One turn of the \<^verbatim>\<open>while\<close> loop after \<^verbatim>\<open>queue.shift()\<close> gave \<open>(file, depth)\<close>.
  The result is \<open>None\<close> when the scanner does not return, \<open>Inl\<close> when
  \<^verbatim>\<open>readFileSync\<close> throws.
\<close>

definition visit ::
  "env \<Rightarrow> options \<Rightarrow> build_state \<Rightarrow> string \<Rightarrow> nat \<Rightarrow> (js_error + build_state) option" where
  "visit env opts st file depth =
     (let relPath = path_relative env (rootDir opts) file
      in if relPath \<in> visited st then Some (Inr st)
         else
           (let st1 = st\<lparr> visited := insert relPath (visited st) \<rparr>
            in if \<not> existsSync env file then Some (Inr st1)
               else
                 (case detectLanguage env file of
                    None \<Rightarrow> Some (Inr st1)
                  | Some lang \<Rightarrow>
                      (case readFileSync env file of
                         Inl e \<Rightarrow> Some (Inl e)
                       | Inr source \<Rightarrow>
                           (case parser_parse lang source of
                              None \<Rightarrow> None
                            | Some deps \<Rightarrow>
                                Some (Inr (foldl (processDep env opts lang file relPath depth)
                                  (st1\<lparr> nodes := map_set relPath
                                            \<lparr> node_path = relPath, node_language = lang,
                                               node_depCount = length deps \<rparr> (nodes st1),
                                        scanned := scanned st1 @ [(relPath, file)] \<rparr>)
                                  deps)))))))"

text \<open>\<^verbatim>\<open>while (queue.length > 0) { const { file, depth } = queue.shift(); ... }\<close>\<close>

partial_function (option) build_loop ::
  "env \<Rightarrow> options \<Rightarrow> build_state \<Rightarrow> (js_error + build_state) option" where
  "build_loop env opts st =
     (case queue st of
        [] \<Rightarrow> Some (Inr st)
      | item # rest \<Rightarrow>
          (case visit env opts (st\<lparr> queue := rest \<rparr>) (fst item) (snd item) of
             None \<Rightarrow> None
           | Some (Inl e) \<Rightarrow> Some (Inl e)
           | Some (Inr st') \<Rightarrow> build_loop env opts st'))"

declare build_loop.simps [code]

record dependency_graph =
  graph_nodes :: "node list"
  graph_edges :: "edge list"
  graph_externals :: "string list"
  graph_builtins :: "string list"
  graph_unresolved :: "unresolved_import list"

definition initial_state :: "env \<Rightarrow> string list \<Rightarrow> options \<Rightarrow> build_state" where
  "initial_state env entries opts =
     \<lparr> nodes = [], edges = [], externals = [], builtins = [], unresolved = [],
       queue = map (\<lambda>e. (if path_isAbsolute env e then e
                          else path_resolve env (rootDir opts) e, 0)) entries,
       visited = {}, scanned = [] \<rparr>"

definition result_graph :: "build_state \<Rightarrow> dependency_graph" where
  "result_graph st =
     \<lparr> graph_nodes = map snd (nodes st), graph_edges = edges st,
       graph_externals = sort (externals st), graph_builtins = sort (builtins st),
       graph_unresolved = unresolved st \<rparr>"

definition buildGraph :: "env \<Rightarrow> string list \<Rightarrow> options \<Rightarrow> (js_error + dependency_graph) option" where
  "buildGraph env entries opts =
     (case build_loop env opts (initial_state env entries opts) of
        None \<Rightarrow> None
      | Some (Inl e) \<Rightarrow> Some (Inl e)
      | Some (Inr st) \<Rightarrow> Some (Inr (result_graph st)))"

section \<open>What one scan contributes\<close>

text \<open>
  The language and the specifiers of a file that the loop reads and scans; \<open>None\<close> for a
  file the loop does not scan to the end.
\<close>

definition scan :: "env \<Rightarrow> string \<Rightarrow> (language \<times> string list) option" where
  "scan env file =
     (if existsSync env file then
        (case detectLanguage env file of
           None \<Rightarrow> None
         | Some lang \<Rightarrow>
             (case readFileSync env file of
                Inl e \<Rightarrow> None
              | Inr source \<Rightarrow>
                  (case parser_parse lang source of
                     None \<Rightarrow> None
                   | Some deps \<Rightarrow> Some (lang, deps))))
      else None)"

text \<open>A file the loop dequeues and skips: it is missing or of no recognised language.\<close>

definition is_skipped :: "env \<Rightarrow> string \<Rightarrow> bool" where
  "is_skipped env file = (\<not> existsSync env file \<or> detectLanguage env file = None)"

text \<open>The resolved path of a specifier that is local and resolves (to a non-empty path).\<close>

definition local_target :: "env \<Rightarrow> options \<Rightarrow> language \<Rightarrow> string \<Rightarrow> string \<Rightarrow> string option" where
  "local_target env opts lang file dep =
     (if parser_classify lang dep = Local then
        (case resolveLocal env dep file (rootDir opts) of
           Some resolved \<Rightarrow> if resolved \<noteq> [] then Some resolved else None
         | None \<Rightarrow> None)
      else None)"

definition local_targets :: "env \<Rightarrow> options \<Rightarrow> language \<Rightarrow> string \<Rightarrow> string list \<Rightarrow> string list" where
  "local_targets env opts lang file deps = List.map_filter (local_target env opts lang file) deps"

text \<open>The edges, unresolved records and queue items that one specifier adds.\<close>

definition dep_edges :: "env \<Rightarrow> options \<Rightarrow> language \<Rightarrow> string \<Rightarrow> string \<Rightarrow> string \<Rightarrow> edge list" where
  "dep_edges env opts lang file relPath dep =
     (case parser_classify lang dep of
        Local \<Rightarrow>
          (case local_target env opts lang file dep of
             Some resolved \<Rightarrow>
               [\<lparr> edge_from = relPath, edge_to = resolved, edge_specifier = dep, edge_type = Local \<rparr>]
           | None \<Rightarrow> [])
      | External \<Rightarrow>
          (if includeExternal opts
           then [\<lparr> edge_from = relPath, edge_to = ''[ext] '' @ dep, edge_specifier = dep,
                    edge_type = External \<rparr>]
           else [])
      | Builtin \<Rightarrow>
          (if includeBuiltin opts
           then [\<lparr> edge_from = relPath, edge_to = ''[builtin] '' @ dep, edge_specifier = dep,
                    edge_type = Builtin \<rparr>]
           else []))"

definition dep_unresolved :: "env \<Rightarrow> options \<Rightarrow> language \<Rightarrow> string \<Rightarrow> string \<Rightarrow> string \<Rightarrow> unresolved_import list" where
  "dep_unresolved env opts lang file relPath dep =
     (if parser_classify lang dep = Local \<and> local_target env opts lang file dep = None
      then [\<lparr> unresolved_from = relPath, unresolved_specifier = dep \<rparr>]
      else [])"

definition dep_pushes :: "env \<Rightarrow> options \<Rightarrow> language \<Rightarrow> string \<Rightarrow> nat \<Rightarrow> string \<Rightarrow> (string \<times> nat) list" where
  "dep_pushes env opts lang file depth dep =
     (case local_target env opts lang file dep of
        Some resolved \<Rightarrow>
          if depth_below depth (maxDepth opts)
          then [(path_resolve env (rootDir opts) resolved, depth + 1)]
          else []
      | None \<Rightarrow> [])"

text \<open>The edges and unresolved records of a whole scanned file.\<close>

definition file_edges :: "env \<Rightarrow> options \<Rightarrow> string \<times> string \<Rightarrow> edge list" where
  "file_edges env opts pf =
     (case scan env (snd pf) of
        None \<Rightarrow> []
      | Some (lang, deps) \<Rightarrow> concat (map (dep_edges env opts lang (snd pf) (fst pf)) deps))"

definition file_unresolved :: "env \<Rightarrow> options \<Rightarrow> string \<times> string \<Rightarrow> unresolved_import list" where
  "file_unresolved env opts pf =
     (case scan env (snd pf) of
        None \<Rightarrow> []
      | Some (lang, deps) \<Rightarrow> concat (map (dep_unresolved env opts lang (snd pf) (fst pf)) deps))"

text \<open>The file of an entry, as the queue is seeded.\<close>

definition entry_file :: "env \<Rightarrow> options \<Rightarrow> string \<Rightarrow> string" where
  "entry_file env opts e =
     (if path_isAbsolute env e then e else path_resolve env (rootDir opts) e)"

text \<open>
  The files reachable from the entries: an entry's file, and the file of every local
  specifier that resolves, of a reachable file that can be scanned.
\<close>

inductive_set reachable :: "env \<Rightarrow> options \<Rightarrow> string list \<Rightarrow> string set"
  for env :: env and opts :: options and entries :: "string list" where
  entry: "e \<in> set entries \<Longrightarrow> entry_file env opts e \<in> reachable env opts entries"
| import: "f \<in> reachable env opts entries \<Longrightarrow> scan env f = Some (lang, deps) \<Longrightarrow>
     resolved \<in> set (local_targets env opts lang f deps) \<Longrightarrow>
     path_resolve env (rootDir opts) resolved \<in> reachable env opts entries"

section \<open>The least length of a match\<close>

fun min_len :: "rx \<Rightarrow> nat" where
  "min_len (Chr p) = 1"
| "min_len Eps = 0"
| "min_len (Seq a b) = min_len a + min_len b"
| "min_len (Alt a b) = min (min_len a) (min_len b)"
| "min_len (Opt a) = 0"
| "min_len (Star p) = 0"
| "min_len (Plus p) = 1"
| "min_len (LazyStar p) = 0"
| "min_len (AtMost n p) = 0"
| "min_len Bol = 0"
| "min_len WordB = 0"

definition pattern_min :: "pattern \<Rightarrow> nat" where
  "pattern_min pat = min_len (before pat) + min_len (group pat) + min_len (after pat)"

section \<open>The classification rule as the specification words it\<close>

text \<open>
  The rule of the specification, kept apart from the program's classifiers: a leading path
  marker makes a specifier local; otherwise the leading segment (before the first
  \<^verbatim>\<open>/\<close>, or the first \<^verbatim>\<open>.\<close> for Python) decides between builtin and external by
  membership in the language's fixed list.
\<close>

definition spec_classify :: "language \<Rightarrow> string \<Rightarrow> dep_type" where
  "spec_classify lang specifier =
     (case lang of
        JavaScript \<Rightarrow>
          if startsWith specifier ''.'' \<or> startsWith specifier ''/'' then Local
          else if takeWhile (\<lambda>c. c \<noteq> CHR ''/'') specifier \<in> set NODE_BUILTINS then Builtin
          else External
      | Python \<Rightarrow>
          if startsWith specifier ''.'' then Local
          else if takeWhile (\<lambda>c. c \<noteq> CHR ''.'') specifier \<in> set PYTHON_STDLIB then Builtin
          else External)"

section \<open>Invariants of the loop\<close>

text \<open>
  The scan log holds files that exist, are reachable and were scanned under their
  root-relative path, each path once and every path visited; the queue holds reachable
  files.  The nodes are the scan log; the edges and the unresolved records are what the
  logged scans contribute, in order.  Every visited path was scanned or belongs to a file
  that was skipped.  Without a depth limit the target of every local edge is queued or
  visited.  \<open>pending\<close> is the set of paths that can still be visited for the first time:
  its size, then the length of the queue, decrease with every turn of the loop.
\<close>

definition inv_log :: "env \<Rightarrow> options \<Rightarrow> string list \<Rightarrow> build_state \<Rightarrow> bool" where
  "inv_log env opts entries st \<longleftrightarrow>
     (\<forall>pf \<in> set (scanned st).
        fst pf = path_relative env (rootDir opts) (snd pf) \<and> existsSync env (snd pf)
        \<and> snd pf \<in> reachable env opts entries \<and> scan env (snd pf) \<noteq> None)
     \<and> distinct (map fst (scanned st))
     \<and> fst ` set (scanned st) \<subseteq> visited st
     \<and> (\<forall>item \<in> set (queue st). fst item \<in> reachable env opts entries)"

definition inv_nodes :: "build_state \<Rightarrow> bool" where
  "inv_nodes st \<longleftrightarrow>
     map fst (nodes st) = map fst (scanned st)
     \<and> (\<forall>kn \<in> set (nodes st). node_path (snd kn) = fst kn)"

definition inv_out :: "env \<Rightarrow> options \<Rightarrow> build_state \<Rightarrow> bool" where
  "inv_out env opts st \<longleftrightarrow>
     edges st = concat (map (file_edges env opts) (scanned st))
     \<and> unresolved st = concat (map (file_unresolved env opts) (scanned st))"

definition inv_visited :: "env \<Rightarrow> options \<Rightarrow> string list \<Rightarrow> build_state \<Rightarrow> bool" where
  "inv_visited env opts entries st \<longleftrightarrow>
     (\<forall>p \<in> visited st. p \<in> fst ` set (scanned st)
        \<or> (\<exists>f \<in> reachable env opts entries.
              path_relative env (rootDir opts) f = p \<and> is_skipped env f))"

definition inv_targets :: "env \<Rightarrow> options \<Rightarrow> build_state \<Rightarrow> bool" where
  "inv_targets env opts st \<longleftrightarrow>
     (\<forall>e \<in> set (edges st). edge_type e = Local \<longrightarrow>
        (\<exists>d. (path_resolve env (rootDir opts) (edge_to e), d) \<in> set (queue st))
        \<or> path_relative env (rootDir opts) (path_resolve env (rootDir opts) (edge_to e)) \<in> visited st)"

definition candidates :: "env \<Rightarrow> options \<Rightarrow> string set" where
  "candidates env opts =
     (\<lambda>x. path_relative env (rootDir opts)
             (path_resolve env (rootDir opts) (path_relative env (rootDir opts) x)))
       ` {p. existsSync env p}"

definition pending :: "env \<Rightarrow> options \<Rightarrow> build_state \<Rightarrow> string set" where
  "pending env opts st =
     (candidates env opts \<union> (\<lambda>item. path_relative env (rootDir opts) (fst item)) ` set (queue st))
       - visited st"

section \<open>Concrete scenarios\<close>

text \<open>A source tree with a directory that holds an index file.\<close>

definition tree_files :: "(string \<times> fsnode) list" where
  "tree_files =
     [(''/proj'', Dir), (''/proj/src'', Dir), (''/proj/src/a.js'', File []),
      (''/proj/src/b.js'', File []), (''/proj/src/lib'', Dir),
      (''/proj/src/lib/index.js'', File [])]"

text \<open>
  The trees of the repository's tests: \<^verbatim>\<open>a.js\<close> requires \<^verbatim>\<open>./b\<close>, which requires
  \<^verbatim>\<open>./c\<close>; an entry that requires a JSON file; an entry that requires a missing file.
\<close>

definition require_stmt :: "string \<Rightarrow> string" where
  "require_stmt s = ''const x = require('' @ [sq] @ s @ [sq] @ '');''"

definition chain_files :: "(string \<times> fsnode) list" where
  "chain_files =
     [(''/proj'', Dir), (''/proj/a.js'', File (require_stmt ''./b'')),
      (''/proj/b.js'', File (require_stmt ''./c'')), (''/proj/c.js'', File ''// deep'')]"

definition proj_opts :: "depth_limit \<Rightarrow> options" where
  "proj_opts limit =
     \<lparr> rootDir = ''/proj'', includeExternal = False, includeBuiltin = False, maxDepth = limit \<rparr>"

definition chain_graph :: dependency_graph where
  "chain_graph =
     \<lparr> graph_nodes = [\<lparr> node_path = ''a.js'', node_language = JavaScript, node_depCount = 1 \<rparr>,
                      \<lparr> node_path = ''b.js'', node_language = JavaScript, node_depCount = 1 \<rparr>],
       graph_edges = [\<lparr> edge_from = ''a.js'', edge_to = ''b.js'',
                        edge_specifier = ''./b'', edge_type = Local \<rparr>,
                      \<lparr> edge_from = ''b.js'', edge_to = ''c.js'',
                        edge_specifier = ''./c'', edge_type = Local \<rparr>],
       graph_externals = [], graph_builtins = [], graph_unresolved = [] \<rparr>"

definition json_files :: "(string \<times> fsnode) list" where
  "json_files =
     [(''/proj'', Dir), (''/proj/index.js'', File (require_stmt ''./data.json'')),
      (''/proj/data.json'', File ''{}'')]"

definition json_graph :: dependency_graph where
  "json_graph =
     \<lparr> graph_nodes = [\<lparr> node_path = ''index.js'', node_language = JavaScript, node_depCount = 1 \<rparr>],
       graph_edges = [\<lparr> edge_from = ''index.js'', edge_to = ''data.json'',
                        edge_specifier = ''./data.json'', edge_type = Local \<rparr>],
       graph_externals = [], graph_builtins = [], graph_unresolved = [] \<rparr>"

definition missing_files :: "(string \<times> fsnode) list" where
  "missing_files = [(''/proj'', Dir), (''/proj/index.js'', File (require_stmt ''./missing''))]"

text \<open>
  An entry spelled with a trailing separator, \<^verbatim>\<open>/proj/b.js/\<close>: no such file exists, and
  its root-relative path is \<^verbatim>\<open>b.js\<close>, the path of the file that \<^verbatim>\<open>a.js\<close> requires.
\<close>

definition alias_files :: "(string \<times> fsnode) list" where
  "alias_files =
     [(''/proj'', Dir), (''/proj/a.js'', File (require_stmt ''./b'')),
      (''/proj/b.js'', File ''// leaf'')]"

definition alias_graph :: dependency_graph where
  "alias_graph =
     \<lparr> graph_nodes = [\<lparr> node_path = ''a.js'', node_language = JavaScript, node_depCount = 1 \<rparr>],
       graph_edges = [\<lparr> edge_from = ''a.js'', edge_to = ''b.js'',
                        edge_specifier = ''./b'', edge_type = Local \<rparr>],
       graph_externals = [], graph_builtins = [], graph_unresolved = [] \<rparr>"

text \<open>
  An import-like token inside an ordinary string literal: the JavaScript statement
  \<^verbatim>\<open>const s = "require('fake')";\<close> and the Python statement
  \<^verbatim>\<open>s = "abc\\<close> continued on the next line by \<^verbatim>\<open>import fake"\<close>.
\<close>

definition decoy_js :: string where
  "decoy_js = ''const s = '' @ [dq] @ ''require('' @ [sq] @ ''fake'' @ [sq] @ '')'' @ [dq] @ '';''"

definition decoy_py :: string where
  "decoy_py = ''s = '' @ [dq] @ ''abc'' @ [bslash, nl] @ ''import fake'' @ [dq]"

section \<open>Auxiliary facts\<close>

lemma first_elem_str_split:
  "first_elem (str_split sep s) = Some (takeWhile (\<lambda>c. c \<noteq> sep) s)"
  by (induction s) (auto simp: first_elem_def split: list.splits)

lemma find_first_hit:
  "P x \<Longrightarrow> (\<forall>y\<in>set pre. \<not> P y) \<Longrightarrow> find P (pre @ x # post) = Some x"
  by (induction pre) auto

lemma find_no_hit: "(find P xs = None) = (\<forall>y\<in>set xs. \<not> P y)"
  by (induction xs) auto

lemma resolve_exts_body:
  "resolve_exts env fromFile =
     (if toLowerCase (path_extname env fromFile)
           \<in> set [''.js'', ''.mjs'', ''.cjs'', ''.jsx'', ''.ts'', ''.tsx'', ''.mts'', ''.cts'']
      then [''.js'', ''.mjs'', ''.cjs'', ''.jsx'', ''.ts'', ''.tsx'', ''.mts'', ''.cts'']
      else if toLowerCase (path_extname env fromFile) = ''.py'' then [''.py''] else [])"
  by (simp add: resolve_exts_def detectLanguage_def EXTENSIONS_entries_def)

subsection \<open>Every match of a scanner pattern consumes text\<close>

lemma star_greedy_length:
  "(p', r') \<in> set (star_greedy cls p rest) \<Longrightarrow> length r' \<le> length rest"
  by (induction cls p rest rule: star_greedy.induct) (auto split: if_splits)

lemma star_lazy_length:
  "(p', r') \<in> set (star_lazy cls p rest) \<Longrightarrow> length r' \<le> length rest"
  by (induction cls p rest rule: star_lazy.induct) (auto split: if_splits)

lemma atmost_greedy_length:
  "(p', r') \<in> set (atmost_greedy n cls p rest) \<Longrightarrow> length r' \<le> length rest"
  by (induction n cls p rest rule: atmost_greedy.induct) (auto split: if_splits)

lemma ms_consumes:
  "(p', r') \<in> set (ms r (p, rest)) \<Longrightarrow> length r' + min_len r \<le> length rest"
proof (induction r arbitrary: p rest p' r')
  case (Chr cls)
  then show ?case by (auto split: list.splits if_splits)
next
  case (Seq a b)
  from Seq.prems obtain p1 r1 where
    a: "(p1, r1) \<in> set (ms a (p, rest))" and b: "(p', r') \<in> set (ms b (p1, r1))"
    by auto
  from Seq.IH(1)[OF a] Seq.IH(2)[OF b] show ?case by simp
next
  case (Alt a b)
  then show ?case by fastforce
next
  case (Opt a)
  then show ?case by fastforce
next
  case (Star cls)
  then show ?case using star_greedy_length by fastforce
next
  case (Plus cls)
  then show ?case
    by (cases rest) (auto split: if_splits dest: star_greedy_length)
next
  case (LazyStar cls)
  then show ?case using star_lazy_length by fastforce
next
  case (AtMost n cls)
  then show ?case using atmost_greedy_length by fastforce
qed (auto split: if_splits)

lemma pmatch_consumes:
  assumes "(m1, (p', r')) \<in> set (pmatch pat p rest)"
  shows "length r' + pattern_min pat \<le> length rest"
proof -
  from assms obtain p1 r1 p2 r2 where
    a: "(p1, r1) \<in> set (ms (before pat) (p, rest))" and
    b: "(p2, r2) \<in> set (ms (group pat) (p1, r1))" and
    c: "(p', r') \<in> set (ms (after pat) (p2, r2))"
    by (auto simp: pmatch_def)
  from ms_consumes[OF a] ms_consumes[OF b] ms_consumes[OF c]
  show ?thesis by (simp add: pattern_min_def)
qed

lemma leftmost_origin:
  "leftmost m p rest = Some (skipped, x) \<Longrightarrow>
     \<exists>p0 rest0. x \<in> set (m p0 rest0) \<and> length rest0 \<le> length rest"
proof (induction m p rest arbitrary: skipped x rule: leftmost.induct)
  case (1 m prev)
  then obtain ys where "m prev [] = x # ys"
    by (cases "m prev []") auto
  then show ?case by (intro exI[of _ prev] exI[of _ "[]"]) simp
next
  case (2 m prev c cs)
  show ?case
  proof (cases "m prev (c # cs)")
    case Nil
    with 2 obtain p0 rest0 where "x \<in> set (m p0 rest0)" "length rest0 \<le> length cs"
      by (fastforce split: option.splits)
    then show ?thesis by (intro exI[of _ p0] exI[of _ rest0]) simp
  next
    case (Cons y ys)
    with 2 have "x = y" by simp
    with Cons show ?thesis by (intro exI[of _ prev] exI[of _ "c # cs"]) simp
  qed
qed

lemma exec_consumes:
  assumes "exec pat p rest = Some (m1, (p', r'))"
  shows "length r' + pattern_min pat \<le> length rest"
proof -
  from assms obtain skipped where "leftmost (pmatch pat) p rest = Some (skipped, (m1, (p', r')))"
    by (auto simp: exec_def)
  from leftmost_origin[OF this] obtain p0 rest0 where
    "(m1, (p', r')) \<in> set (pmatch pat p0 rest0)" "length rest0 \<le> length rest"
    by blast
  with pmatch_consumes[of m1 p' r' pat p0 rest0] show ?thesis by simp
qed

lemma exec_loop_returns:
  assumes "0 < pattern_min pat"
  shows "\<exists>ds. exec_loop pat body p rest deps = Some ds"
proof (induction "length rest" arbitrary: p rest deps rule: less_induct)
  case less
  show ?case
  proof (cases "exec pat p rest")
    case None
    then show ?thesis by (subst exec_loop.simps) simp
  next
    case (Some a)
    then obtain m1 p' r' where a: "a = (m1, (p', r'))" by (cases a) auto
    with Some exec_consumes[of pat p rest m1 p' r'] assms have "length r' < length rest"
      by simp
    from less[OF this] obtain ds where "exec_loop pat body p' r' (body m1 deps) = Some ds"
      by blast
    with Some a show ?thesis by (subst exec_loop.simps) simp
  qed
qed

lemma js_patterns_min:
  "0 < pattern_min esImport" "0 < pattern_min esExport"
  "0 < pattern_min cjsRequire" "0 < pattern_min dynamicImport"
  by (simp_all add: pattern_min_def esImport_def esExport_def cjsRequire_def dynamicImport_def
        seq_def lit_def chr_def)

lemma py_patterns_min:
  "0 < pattern_min fromPattern" "0 < pattern_min importPattern"
  by (simp_all add: pattern_min_def fromPattern_def importPattern_def seq_def lit_def chr_def)

lemma js_parse_returns: "\<exists>deps. js_parse source = Some deps"
proof -
  obtain d1 where d1: "exec_loop esImport set_add None (js_stripComments source) [] = Some d1"
    using exec_loop_returns[OF js_patterns_min(1)] by blast
  obtain d2 where d2: "exec_loop esExport set_add None (js_stripComments source) d1 = Some d2"
    using exec_loop_returns[OF js_patterns_min(2)] by blast
  obtain d3 where d3: "exec_loop cjsRequire set_add None (js_stripComments source) d2 = Some d3"
    using exec_loop_returns[OF js_patterns_min(3)] by blast
  obtain d4 where d4: "exec_loop dynamicImport set_add None (js_stripComments source) d3 = Some d4"
    using exec_loop_returns[OF js_patterns_min(4)] by blast
  show ?thesis using d1 d2 d3 d4 by (simp add: js_parse_def)
qed

lemma py_parse_returns: "\<exists>deps. py_parse source = Some deps"
proof -
  obtain d1 where d1: "exec_loop fromPattern from_body None (py_stripComments source) [] = Some d1"
    using exec_loop_returns[OF py_patterns_min(1)] by blast
  obtain d2 where d2: "exec_loop importPattern import_body None (py_stripComments source) d1 = Some d2"
    using exec_loop_returns[OF py_patterns_min(2)] by blast
  show ?thesis using d1 d2 by (simp add: py_parse_def)
qed

subsection \<open>The graph builder\<close>

lemma processDep_fields:
  "edges (processDep env opts lang file relPath depth st dep)
     = edges st @ dep_edges env opts lang file relPath dep"
  "unresolved (processDep env opts lang file relPath depth st dep)
     = unresolved st @ dep_unresolved env opts lang file relPath dep"
  "queue (processDep env opts lang file relPath depth st dep)
     = queue st @ dep_pushes env opts lang file depth dep"
  "nodes (processDep env opts lang file relPath depth st dep) = nodes st"
  "visited (processDep env opts lang file relPath depth st dep) = visited st"
  "scanned (processDep env opts lang file relPath depth st dep) = scanned st"
  by (simp_all add: processDep_def dep_edges_def dep_unresolved_def dep_pushes_def
        local_target_def split: dep_type.splits option.splits)

lemma foldl_processDep_fields:
  "edges (foldl (processDep env opts lang file relPath depth) st deps)
     = edges st @ concat (map (dep_edges env opts lang file relPath) deps)"
  "unresolved (foldl (processDep env opts lang file relPath depth) st deps)
     = unresolved st @ concat (map (dep_unresolved env opts lang file relPath) deps)"
  "queue (foldl (processDep env opts lang file relPath depth) st deps)
     = queue st @ concat (map (dep_pushes env opts lang file depth) deps)"
  "nodes (foldl (processDep env opts lang file relPath depth) st deps) = nodes st"
  "visited (foldl (processDep env opts lang file relPath depth) st deps) = visited st"
  "scanned (foldl (processDep env opts lang file relPath depth) st deps) = scanned st"
  by (induction deps arbitrary: st; simp add: processDep_fields)+

lemma visit_Inr_cases:
  assumes "visit env opts st file depth = Some (Inr st')"
  obtains
    (seen) "path_relative env (rootDir opts) file \<in> visited st" "st' = st"
  | (skip) "path_relative env (rootDir opts) file \<notin> visited st" "is_skipped env file"
      "st' = st\<lparr> visited := insert (path_relative env (rootDir opts) file) (visited st) \<rparr>"
  | (scanned) lang deps where
      "path_relative env (rootDir opts) file \<notin> visited st" "existsSync env file"
      "scan env file = Some (lang, deps)"
      "st' = foldl (processDep env opts lang file (path_relative env (rootDir opts) file) depth)
               (st\<lparr> visited := insert (path_relative env (rootDir opts) file) (visited st),
                     nodes := map_set (path_relative env (rootDir opts) file)
                                \<lparr> node_path = path_relative env (rootDir opts) file,
                                   node_language = lang, node_depCount = length deps \<rparr> (nodes st),
                     scanned := scanned st @ [(path_relative env (rootDir opts) file, file)] \<rparr>)
               deps"
  using assms
  by (auto simp: visit_def Let_def scan_def is_skipped_def
           split: if_splits option.splits sum.splits)

lemma build_loop_rule_aux:
  "build_loop env opts s = Some r \<Longrightarrow>
   (\<forall>s f d rest s'. I s \<longrightarrow> queue s = (f, d) # rest \<longrightarrow>
       visit env opts (s\<lparr> queue := rest \<rparr>) f d = Some (Inr s') \<longrightarrow> I s') \<Longrightarrow>
   I s \<Longrightarrow> r = Inr st \<Longrightarrow> I st \<and> queue st = []"
proof (induction env opts s r rule: build_loop.raw_induct[rotated 1, consumes 1])
  case (1 loop env opts s r)
  have step: "\<forall>s f d rest s'. I s \<longrightarrow> queue s = (f, d) # rest \<longrightarrow>
       visit env opts (s\<lparr> queue := rest \<rparr>) f d = Some (Inr s') \<longrightarrow> I s'"
    and inv: "I s" and res: "r = Inr st"
    using "1.prems" by blast+
  show ?case
  proof (cases "queue s")
    case Nil
    with "1.hyps" res inv show ?thesis by simp
  next
    case (Cons item rest)
    obtain f d where item: "item = (f, d)" by (cases item)
    from "1.hyps" res Cons item obtain s' where
      v: "visit env opts (s\<lparr> queue := rest \<rparr>) f d = Some (Inr s')" and
      l: "loop env opts s' = Some r"
      by (auto split: option.splits sum.splits)
    have "I s'" using step inv v Cons item by blast
    with "1.IH" l step res show ?thesis by blast
  qed
qed

lemma build_loop_rule:
  assumes run: "build_loop env opts st0 = Some (Inr st)"
    and init: "I st0"
    and step: "\<And>s f d rest s'. I s \<Longrightarrow> queue s = (f, d) # rest \<Longrightarrow>
                 visit env opts (s\<lparr> queue := rest \<rparr>) f d = Some (Inr s') \<Longrightarrow> I s'"
  shows "I st \<and> queue st = []"
proof (rule build_loop_rule_aux[where I = I, OF run _ init refl])
  show "\<forall>s f d rest s'. I s \<longrightarrow> queue s = (f, d) # rest \<longrightarrow>
       visit env opts (s\<lparr> queue := rest \<rparr>) f d = Some (Inr s') \<longrightarrow> I s'"
    using step by blast
qed

lemma dep_pushes_cases:
  assumes "item \<in> set (dep_pushes env opts lang f depth dep)"
  obtains r where "local_target env opts lang f dep = Some r"
    "depth_below depth (maxDepth opts)"
    "item = (path_resolve env (rootDir opts) r, depth + 1)"
  using assms
  by (cases "local_target env opts lang f dep") (auto simp: dep_pushes_def split: if_splits)

lemma set_map_filter_iff:
  "y \<in> set (List.map_filter g xs) \<longleftrightarrow> (\<exists>x \<in> set xs. g x = Some y)"
  by (induction xs) (auto split: option.splits)

lemma local_target_in_targets:
  "local_target env opts lang f dep = Some r \<Longrightarrow> dep \<in> set deps \<Longrightarrow>
     r \<in> set (local_targets env opts lang f deps)"
  unfolding local_targets_def set_map_filter_iff by blast

lemma dep_pushes_reachable:
  assumes "item \<in> set (dep_pushes env opts lang f depth dep)" "dep \<in> set deps"
    "f \<in> reachable env opts entries" "scan env f = Some (lang, deps)"
  shows "fst item \<in> reachable env opts entries"
proof -
  from assms(1) obtain r where r: "local_target env opts lang f dep = Some r"
    and item: "item = (path_resolve env (rootDir opts) r, depth + 1)"
    by (rule dep_pushes_cases)
  from reachable.import[OF assms(3,4) local_target_in_targets[OF r assms(2)]] item
  show ?thesis by simp
qed

lemma inv_logD:
  assumes "inv_log env opts entries s"
  shows "pf \<in> set (scanned s) \<Longrightarrow> fst pf = path_relative env (rootDir opts) (snd pf)"
    and "pf \<in> set (scanned s) \<Longrightarrow> existsSync env (snd pf)"
    and "pf \<in> set (scanned s) \<Longrightarrow> snd pf \<in> reachable env opts entries"
    and "pf \<in> set (scanned s) \<Longrightarrow> scan env (snd pf) \<noteq> None"
    and "distinct (map fst (scanned s))"
    and "fst ` set (scanned s) \<subseteq> visited s"
    and "item \<in> set (queue s) \<Longrightarrow> fst item \<in> reachable env opts entries"
  using assms unfolding inv_log_def by blast+

lemma inv_log_mono:
  assumes "inv_log env opts entries s" "scanned s' = scanned s" "visited s \<subseteq> visited s'"
    "set (queue s') \<subseteq> set (queue s)"
  shows "inv_log env opts entries s'"
proof -
  have "fst ` set (scanned s) \<subseteq> visited s'"
    using inv_logD(6)[OF assms(1)] assms(3) by (rule subset_trans)
  moreover have "\<forall>item \<in> set (queue s'). fst item \<in> reachable env opts entries"
    using inv_logD(7)[OF assms(1)] assms(4) by (meson subsetD)
  ultimately show ?thesis
    using assms(1) unfolding inv_log_def assms(2) by simp
qed

lemma inv_log_step:
  assumes inv: "inv_log env opts entries s" and q: "queue s = (f, d) # rest"
    and v: "visit env opts (s\<lparr> queue := rest \<rparr>) f d = Some (Inr s')"
  shows "inv_log env opts entries s'"
  using v
proof (cases rule: visit_Inr_cases)
  case seen
  show ?thesis by (rule inv_log_mono[OF inv]) (use seen q in auto)
next
  case skip
  show ?thesis by (rule inv_log_mono[OF inv]) (use skip q in auto)
next
  case (scanned lang deps)
  let ?p = "path_relative env (rootDir opts) f"
  from inv_logD(7)[OF inv, of "(f, d)"] q have fr: "f \<in> reachable env opts entries"
    by simp
  have sc: "scanned s' = scanned s @ [(?p, f)]" and vi: "visited s' = insert ?p (visited s)"
    and qu: "queue s' = rest @ concat (map (dep_pushes env opts lang f d) deps)"
    using scanned(4) by (simp_all add: foldl_processDep_fields)
  from scanned(1) inv_logD(6)[OF inv] have fresh: "?p \<notin> fst ` set (scanned s)"
    by auto
  have c4: "\<forall>item \<in> set (queue s'). fst item \<in> reachable env opts entries"
  proof
    fix item assume "item \<in> set (queue s')"
    with qu consider "item \<in> set rest"
      | dep where "dep \<in> set deps" "item \<in> set (dep_pushes env opts lang f d dep)"
      by auto
    then show "fst item \<in> reachable env opts entries"
    proof cases
      case 1
      with inv_logD(7)[OF inv, of item] q show ?thesis by simp
    next
      case 2
      from dep_pushes_reachable[OF 2(2,1) fr scanned(3)] show ?thesis .
    qed
  qed
  have c1: "\<forall>pf \<in> set (scanned s').
        fst pf = path_relative env (rootDir opts) (snd pf) \<and> existsSync env (snd pf)
        \<and> snd pf \<in> reachable env opts entries \<and> scan env (snd pf) \<noteq> None"
  proof
    fix pf assume "pf \<in> set (scanned s')"
    with sc consider "pf \<in> set (scanned s)" | "pf = (?p, f)" by auto
    then show "fst pf = path_relative env (rootDir opts) (snd pf) \<and> existsSync env (snd pf)
        \<and> snd pf \<in> reachable env opts entries \<and> scan env (snd pf) \<noteq> None"
    proof cases
      case 1
      with inv_logD(1-4)[OF inv, of pf] show ?thesis by blast
    next
      case 2
      with fr scanned(2,3) show ?thesis by simp
    qed
  qed
  have c2: "distinct (map fst (scanned s'))"
    using inv_logD(5)[OF inv] sc fresh by simp
  have c3: "fst ` set (scanned s') \<subseteq> visited s'"
    using inv_logD(6)[OF inv] sc vi by auto
  from c1 c2 c3 c4 show ?thesis unfolding inv_log_def by blast
qed

lemma visit_scanned_fields:
  assumes "s' = foldl (processDep env opts lang f p d)
               (s0\<lparr> visited := insert p (visited s0),
                     nodes := map_set p nd (nodes s0),
                     scanned := scanned s0 @ [(p, f)] \<rparr>) deps"
  shows "scanned s' = scanned s0 @ [(p, f)]"
    and "visited s' = insert p (visited s0)"
    and "nodes s' = map_set p nd (nodes s0)"
    and "queue s' = queue s0 @ concat (map (dep_pushes env opts lang f d) deps)"
    and "edges s' = edges s0 @ concat (map (dep_edges env opts lang f p) deps)"
    and "unresolved s' = unresolved s0 @ concat (map (dep_unresolved env opts lang f p) deps)"
  using assms by (simp_all add: foldl_processDep_fields)

lemma inv_nodes_step:
  assumes log: "inv_log env opts entries s" and inv: "inv_nodes s"
    and q: "queue s = (f, d) # rest"
    and v: "visit env opts (s\<lparr> queue := rest \<rparr>) f d = Some (Inr s')"
  shows "inv_nodes s'"
  using v
proof (cases rule: visit_Inr_cases)
  case seen
  with inv show ?thesis by (simp add: inv_nodes_def)
next
  case skip
  with inv show ?thesis by (simp add: inv_nodes_def)
next
  case (scanned lang deps)
  let ?p = "path_relative env (rootDir opts) f"
  note fields = visit_scanned_fields[OF scanned(4)]
  from scanned(1) inv_logD(6)[OF log] have "?p \<notin> fst ` set (scanned s)" by auto
  with inv have "?p \<notin> fst ` set (nodes s)"
    by (metis inv_nodes_def set_map)
  then have "nodes s' = nodes s @ [(?p, \<lparr> node_path = ?p, node_language = lang,
                                         node_depCount = length deps \<rparr>)]"
    using fields(3) by (simp add: map_set_def)
  with inv fields(1) show ?thesis by (simp add: inv_nodes_def)
qed

lemma inv_out_step:
  assumes inv: "inv_out env opts s" and q: "queue s = (f, d) # rest"
    and v: "visit env opts (s\<lparr> queue := rest \<rparr>) f d = Some (Inr s')"
  shows "inv_out env opts s'"
  using v
proof (cases rule: visit_Inr_cases)
  case seen
  with inv show ?thesis by (simp add: inv_out_def)
next
  case skip
  with inv show ?thesis by (simp add: inv_out_def)
next
  case (scanned lang deps)
  note fields = visit_scanned_fields[OF scanned(4)]
  from inv fields(1,5,6) scanned(3) show ?thesis
    by (simp add: inv_out_def file_edges_def file_unresolved_def)
qed

lemma inv_visited_step:
  assumes log: "inv_log env opts entries s"
    and inv: "inv_visited env opts entries s" and q: "queue s = (f, d) # rest"
    and v: "visit env opts (s\<lparr> queue := rest \<rparr>) f d = Some (Inr s')"
  shows "inv_visited env opts entries s'"
  using v
proof (cases rule: visit_Inr_cases)
  case seen
  with inv show ?thesis by (simp add: inv_visited_def)
next
  case skip
  from inv_logD(7)[OF log, of "(f, d)"] q have "f \<in> reachable env opts entries"
    by simp
  with inv skip show ?thesis unfolding inv_visited_def by auto
next
  case (scanned lang deps)
  note fields = visit_scanned_fields[OF scanned(4)]
  from inv fields(1,2) show ?thesis unfolding inv_visited_def by auto
qed

lemma dep_edges_local:
  assumes "e \<in> set (dep_edges env opts lang f p dep)" "edge_type e = Local"
  shows "local_target env opts lang f dep = Some (edge_to e)"
  using assms
  by (cases "parser_classify lang dep"; cases "local_target env opts lang f dep")
     (auto simp: dep_edges_def split: if_splits)

lemma inv_targets_step:
  assumes unbounded: "maxDepth opts = Infinity"
    and inv: "inv_targets env opts s" and q: "queue s = (f, d) # rest"
    and v: "visit env opts (s\<lparr> queue := rest \<rparr>) f d = Some (Inr s')"
  shows "inv_targets env opts s'"
proof -
  let ?p = "path_relative env (rootDir opts) f"
  let ?R = "rootDir opts"
  have old: "(\<exists>d'. (path_resolve env ?R (edge_to e), d') \<in> set rest)
              \<or> path_relative env ?R (path_resolve env ?R (edge_to e)) \<in> insert ?p (visited s)"
    if "e \<in> set (edges s)" "edge_type e = Local" for e
  proof -
    from inv that q consider d' where "(path_resolve env ?R (edge_to e), d') = (f, d)"
      | d' where "(path_resolve env ?R (edge_to e), d') \<in> set rest"
      | "path_relative env ?R (path_resolve env ?R (edge_to e)) \<in> visited s"
      unfolding inv_targets_def by auto
    then show ?thesis by cases auto
  qed
  from v show ?thesis
  proof (cases rule: visit_Inr_cases)
    case seen
    then have eqs: "insert ?p (visited s) = visited s'" "edges s' = edges s" "queue s' = rest"
      by auto
    show ?thesis unfolding inv_targets_def
    proof (intro ballI impI)
      fix e assume "e \<in> set (edges s')" "edge_type e = Local"
      with old[of e] eqs
      show "(\<exists>d. (path_resolve env ?R (edge_to e), d) \<in> set (queue s'))
              \<or> path_relative env ?R (path_resolve env ?R (edge_to e)) \<in> visited s'"
        by simp
    qed
  next
    case skip
    then have eqs: "insert ?p (visited s) = visited s'" "edges s' = edges s" "queue s' = rest"
      by auto
    show ?thesis unfolding inv_targets_def
    proof (intro ballI impI)
      fix e assume "e \<in> set (edges s')" "edge_type e = Local"
      with old[of e] eqs
      show "(\<exists>d. (path_resolve env ?R (edge_to e), d) \<in> set (queue s'))
              \<or> path_relative env ?R (path_resolve env ?R (edge_to e)) \<in> visited s'"
        by simp
    qed
  next
    case (scanned lang deps)
    note fields = visit_scanned_fields[OF scanned(4)]
    show ?thesis unfolding inv_targets_def
    proof (intro ballI impI)
      fix e assume e: "e \<in> set (edges s')" and loc: "edge_type e = Local"
      from e fields(5) consider "e \<in> set (edges s)"
        | dep where "dep \<in> set deps" "e \<in> set (dep_edges env opts lang f ?p dep)"
        by auto
      then show "(\<exists>d. (path_resolve env ?R (edge_to e), d) \<in> set (queue s'))
              \<or> path_relative env ?R (path_resolve env ?R (edge_to e)) \<in> visited s'"
      proof cases
        case 1
        from old[OF 1 loc] fields(2,4) show ?thesis by auto
      next
        case 2
        from dep_edges_local[OF 2(2) loc] unbounded
        have "(path_resolve env ?R (edge_to e), d + 1) \<in> set (dep_pushes env opts lang f d dep)"
          by (simp add: dep_pushes_def)
        with 2(1) fields(4) show ?thesis by auto
      qed
    qed
  qed
qed

lemma find_hit: "find P xs = Some x \<Longrightarrow> P x"
  by (induction xs) (auto split: if_splits)

lemma resolveLocal_exists:
  assumes "resolveLocal env dep f root = Some r"
  shows "\<exists>x. existsSync env x \<and> r = path_relative env root x"
proof -
  let ?t = "resolve_target env dep f"
  let ?P = "\<lambda>ext. regular_file env (?t @ ext)"
  let ?Q = "\<lambda>ext. existsSync env (path_join env ?t (''index'' @ ext))"
  show ?thesis
  proof (cases "regular_file env ?t")
    case True
    with assms show ?thesis by (auto simp: resolveLocal_def Let_def regular_file_def)
  next
    case False
    show ?thesis
    proof (cases "find ?P (resolve_exts env f)")
      case (Some ext)
      from find_hit[OF Some] have "existsSync env (?t @ ext)" by (simp add: regular_file_def)
      with assms False Some show ?thesis by (auto simp: resolveLocal_def Let_def)
    next
      case None
      with assms False obtain ext where
        "find ?Q (resolve_exts env f) = Some ext"
        "r = path_relative env root (path_join env ?t (''index'' @ ext))"
        by (auto simp: resolveLocal_def Let_def split: if_splits option.splits)
      with find_hit[of ?Q "resolve_exts env f" ext] show ?thesis by blast
    qed
  qed
qed

lemma finite_pending:
  "finite {p. existsSync env p} \<Longrightarrow> finite (pending env opts st)"
  by (simp add: pending_def candidates_def)

lemma dep_pushes_candidates:
  assumes "item \<in> set (dep_pushes env opts lang f d dep)"
  shows "path_relative env (rootDir opts) (fst item) \<in> candidates env opts"
proof -
  from assms obtain r where r: "local_target env opts lang f dep = Some r"
    and item: "item = (path_resolve env (rootDir opts) r, d + 1)"
    by (rule dep_pushes_cases)
  from r have "resolveLocal env dep f (rootDir opts) = Some r"
    by (auto simp: local_target_def split: if_splits option.splits)
  from resolveLocal_exists[OF this] obtain x where "existsSync env x"
    "r = path_relative env (rootDir opts) x" by blast
  with item show ?thesis by (auto simp: candidates_def)
qed

lemma visit_decreases:
  assumes fin: "finite {p. existsSync env p}" and q: "queue s = (f, d) # rest"
    and v: "visit env opts (s\<lparr> queue := rest \<rparr>) f d = Some (Inr s')"
  shows "card (pending env opts s') < card (pending env opts s)
       \<or> (card (pending env opts s') \<le> card (pending env opts s)
           \<and> length (queue s') < length (queue s))"
proof -
  let ?rel = "\<lambda>item. path_relative env (rootDir opts) (fst item)"
  let ?p = "path_relative env (rootDir opts) f"
  note finS = finite_pending[OF fin, of opts s]
  from v show ?thesis
  proof (cases rule: visit_Inr_cases)
    case seen
    with q have "pending env opts s' \<subseteq> pending env opts s" "length (queue s') < length (queue s)"
      by (auto simp: pending_def)
    with finS show ?thesis by (simp add: card_mono)
  next
    case skip
    with q have "pending env opts s' \<subseteq> pending env opts s" "?p \<in> pending env opts s"
      "?p \<notin> pending env opts s'"
      by (auto simp: pending_def)
    then have "pending env opts s' \<subset> pending env opts s" by blast
    with finS show ?thesis by (simp add: psubset_card_mono)
  next
    case (scanned lang deps)
    note fields = visit_scanned_fields[OF scanned(4)]
    have "?rel ` set (queue s') \<subseteq> candidates env opts \<union> ?rel ` set rest"
    proof
      fix x assume "x \<in> ?rel ` set (queue s')"
      then obtain item where item: "item \<in> set (queue s')" "x = ?rel item" by blast
      with fields(4) consider "item \<in> set rest"
        | dep where "item \<in> set (dep_pushes env opts lang f d dep)"
        by auto
      then show "x \<in> candidates env opts \<union> ?rel ` set rest"
      proof cases
        case 1
        with item show ?thesis by blast
      next
        case 2
        from dep_pushes_candidates[OF 2] item show ?thesis by simp
      qed
    qed
    with q fields(2) scanned(1)
    have "pending env opts s' \<subseteq> pending env opts s" "?p \<in> pending env opts s"
      "?p \<notin> pending env opts s'"
      by (auto simp: pending_def)
    then have "pending env opts s' \<subset> pending env opts s" by blast
    with finS show ?thesis by (simp add: psubset_card_mono)
  qed
qed

lemma parser_parse_returns: "\<exists>deps. parser_parse lang source = Some deps"
  by (cases lang) (simp_all add: js_parse_returns py_parse_returns)

lemma visit_returns: "\<exists>r. visit env opts st f d = Some r"
proof (cases "path_relative env (rootDir opts) f \<in> visited st \<or> \<not> existsSync env f")
  case True
  then show ?thesis by (auto simp: visit_def Let_def)
next
  case False
  show ?thesis
  proof (cases "detectLanguage env f")
    case None
    with False show ?thesis by (simp add: visit_def Let_def)
  next
    case (Some lang)
    show ?thesis
    proof (cases "readFileSync env f")
      case (Inl e)
      with False Some show ?thesis by (simp add: visit_def Let_def)
    next
      case (Inr source)
      from parser_parse_returns obtain deps where "parser_parse lang source = Some deps"
        by blast
      with False Some Inr show ?thesis by (simp add: visit_def Let_def)
    qed
  qed
qed

lemma build_loop_returns:
  assumes fin: "finite {p. existsSync env p}"
  shows "\<exists>r. build_loop env opts st = Some r"
proof (induction "(card (pending env opts st), length (queue st))" arbitrary: st
       rule: wf_induct_rule[OF wf_lex_prod[OF wf_less_than wf_less_than]])
  case less: 1
  show ?case
  proof (cases "queue st")
    case Nil
    then show ?thesis by (subst build_loop.simps) simp
  next
    case (Cons item rest)
    obtain f d where item: "item = (f, d)" by (cases item)
    from visit_returns obtain r where r: "visit env opts (st\<lparr> queue := rest \<rparr>) f d = Some r"
      by blast
    show ?thesis
    proof (cases r)
      case (Inl e)
      with r Cons item show ?thesis by (subst build_loop.simps) simp
    next
      case (Inr s')
      from visit_decreases[OF fin _ r[unfolded Inr]] Cons item
      have "((card (pending env opts s'), length (queue s')),
             (card (pending env opts st), length (queue st))) \<in> less_than <*lex*> less_than"
        by auto
      from less[OF this] obtain r' where "build_loop env opts s' = Some r'" by blast
      with r Inr Cons item show ?thesis by (subst build_loop.simps) simp
    qed
  qed
qed

lemma initial_invs:
  "inv_log env opts entries (initial_state env entries opts)"
  "inv_nodes (initial_state env entries opts)"
  "inv_out env opts (initial_state env entries opts)"
  "inv_visited env opts entries (initial_state env entries opts)"
  "inv_targets env opts (initial_state env entries opts)"
  by (auto simp: inv_log_def inv_nodes_def inv_out_def inv_visited_def inv_targets_def
        initial_state_def entry_file_def[symmetric] intro: reachable.entry)

lemma build_loop_final:
  assumes "build_loop env opts (initial_state env entries opts) = Some (Inr st)"
  shows "inv_log env opts entries st" "inv_nodes st" "inv_out env opts st"
    "inv_visited env opts entries st" "queue st = []"
proof -
  let ?I = "\<lambda>s. inv_log env opts entries s \<and> inv_nodes s \<and> inv_out env opts s
                 \<and> inv_visited env opts entries s"
  have "?I st \<and> queue st = []"
  proof (rule build_loop_rule[OF assms, of ?I])
    show "?I (initial_state env entries opts)" by (simp add: initial_invs)
  next
    fix s f d rest s'
    assume I: "?I s" and q: "queue s = (f, d) # rest"
      and v: "visit env opts (s\<lparr> queue := rest \<rparr>) f d = Some (Inr s')"
    from I have a: "inv_log env opts entries s" and b: "inv_nodes s"
      and c: "inv_out env opts s" and e: "inv_visited env opts entries s" by simp_all
    from inv_log_step[OF a q v] inv_nodes_step[OF a b q v] inv_out_step[OF c q v]
      inv_visited_step[OF a e q v]
    show "?I s'" by simp
  qed
  then show "inv_log env opts entries st" "inv_nodes st" "inv_out env opts st"
    "inv_visited env opts entries st" "queue st = []" by blast+
qed

lemma build_loop_final_targets:
  assumes "build_loop env opts (initial_state env entries opts) = Some (Inr st)"
    and "maxDepth opts = Infinity"
  shows "inv_targets env opts st"
  using build_loop_rule[OF assms(1), of "inv_targets env opts"]
    initial_invs(5) inv_targets_step[OF assms(2)] by blast

lemma buildGraph_Inr:
  assumes "buildGraph env entries opts = Some (Inr g)"
  obtains st where "build_loop env opts (initial_state env entries opts) = Some (Inr st)"
    "g = result_graph st"
  using assms by (auto simp: buildGraph_def split: option.splits sum.splits)

lemma node_paths:
  assumes "inv_nodes st"
  shows "map node_path (graph_nodes (result_graph st)) = map fst (scanned st)"
proof -
  from assms have "\<forall>kn \<in> set (nodes st). node_path (snd kn) = fst kn"
    by (simp add: inv_nodes_def)
  then have "map (\<lambda>kn. node_path (snd kn)) (nodes st) = map fst (nodes st)"
    by (intro map_cong refl) simp
  with assms show ?thesis by (simp add: result_graph_def inv_nodes_def comp_def)
qed

lemma dep_edges_from:
  "e \<in> set (dep_edges env opts lang f p dep) \<Longrightarrow> edge_from e = p \<and> edge_specifier e = dep"
  by (cases "parser_classify lang dep"; cases "local_target env opts lang f dep")
     (auto simp: dep_edges_def split: if_splits)

lemma file_edges_from:
  "e \<in> set (file_edges env opts pf) \<Longrightarrow> edge_from e = fst pf"
  by (auto simp: file_edges_def split: option.splits dest: dep_edges_from)

lemma scanned_bounded:
  assumes fin: "finite {p. existsSync env p}" and log: "inv_log env opts entries st"
  shows "length (scanned st) \<le> card {f \<in> reachable env opts entries. existsSync env f}"
proof -
  have "map fst (scanned st) = map (path_relative env (rootDir opts)) (map snd (scanned st))"
    using inv_logD(1)[OF log] by simp
  with inv_logD(5)[OF log] have "distinct (map snd (scanned st))"
    by (metis distinct_map)
  then have "length (scanned st) = card (set (map snd (scanned st)))"
    by (metis distinct_card length_map)
  moreover have "set (map snd (scanned st)) \<subseteq> {f \<in> reachable env opts entries. existsSync env f}"
    using inv_logD(2,3)[OF log] by auto
  moreover have "finite {f \<in> reachable env opts entries. existsSync env f}"
    using fin by simp
  ultimately show ?thesis by (simp add: card_mono)
qed

lemma local_target_Some:
  "local_target env opts lang f dep = Some r \<Longrightarrow>
     parser_classify lang dep = Local \<and> resolveLocal env dep f (rootDir opts) = Some r \<and> r \<noteq> []"
  by (auto simp: local_target_def split: if_splits option.splits)

lemma visit_pushes:
  assumes "visit env opts st f d = Some (Inr st')"
  shows "\<exists>pushed. queue st' = queue st @ pushed
           \<and> (pushed \<noteq> [] \<longrightarrow> path_relative env (rootDir opts) f \<notin> visited st)
           \<and> (\<forall>item \<in> set pushed. \<exists>lang deps dep r.
                 scan env f = Some (lang, deps) \<and> dep \<in> set deps
                 \<and> parser_classify lang dep = Local
                 \<and> resolveLocal env dep f (rootDir opts) = Some r \<and> r \<noteq> []
                 \<and> depth_below d (maxDepth opts)
                 \<and> item = (path_resolve env (rootDir opts) r, d + 1))"
  using assms
proof (cases rule: visit_Inr_cases)
  case seen
  then show ?thesis by simp
next
  case skip
  then show ?thesis by simp
next
  case (scanned lang deps)
  note fields = visit_scanned_fields[OF scanned(4)]
  let ?pushed = "concat (map (dep_pushes env opts lang f d) deps)"
  have "\<exists>lang deps dep r.
                 scan env f = Some (lang, deps) \<and> dep \<in> set deps
                 \<and> parser_classify lang dep = Local
                 \<and> resolveLocal env dep f (rootDir opts) = Some r \<and> r \<noteq> []
                 \<and> depth_below d (maxDepth opts)
                 \<and> item = (path_resolve env (rootDir opts) r, d + 1)"
    if "item \<in> set ?pushed" for item
  proof -
    from that obtain dep where dep: "dep \<in> set deps"
      "item \<in> set (dep_pushes env opts lang f d dep)" by auto
    from dep(2) obtain r where "local_target env opts lang f dep = Some r"
      "depth_below d (maxDepth opts)" "item = (path_resolve env (rootDir opts) r, d + 1)"
      by (rule dep_pushes_cases)
    with local_target_Some[of env opts lang f dep r] dep(1) scanned(3) show ?thesis by blast
  qed
  with fields(4) scanned(1) show ?thesis by blast
qed

lemma scan_SomeD:
  assumes "scan env f = Some (lang, deps)"
  shows "existsSync env f" "detectLanguage env f = Some lang"
    "\<exists>source. readFileSync env f = Inr source \<and> parser_parse lang source = Some deps"
  using assms by (auto simp: scan_def split: if_splits option.splits sum.splits)

lemma visit_scan:
  assumes "path_relative env (rootDir opts) f \<notin> visited st" "scan env f = Some (lang, deps)"
  shows "visit env opts st f d =
     Some (Inr (foldl (processDep env opts lang f (path_relative env (rootDir opts) f) d)
               (st\<lparr> visited := insert (path_relative env (rootDir opts) f) (visited st),
                     nodes := map_set (path_relative env (rootDir opts) f)
                                \<lparr> node_path = path_relative env (rootDir opts) f,
                                   node_language = lang, node_depCount = length deps \<rparr> (nodes st),
                     scanned := scanned st @ [(path_relative env (rootDir opts) f, f)] \<rparr>)
               deps))"
  using assms(1) scan_SomeD[OF assms(2)]
  by (auto simp: visit_def Let_def)

lemma pushes_targets:
  "concat (map (dep_pushes env opts lang f d) deps) =
     (if depth_below d (maxDepth opts)
      then map (\<lambda>r. (path_resolve env (rootDir opts) r, d + 1)) (local_targets env opts lang f deps)
      else [])"
  by (induction deps) (auto simp: dep_pushes_def local_targets_def split: option.splits)

lemma local_edges_targets:
  "map (\<lambda>e. (edge_from e, edge_to e))
       (filter (\<lambda>e. edge_type e = Local) (concat (map (dep_edges env opts lang f p) deps)))
     = map (\<lambda>r. (p, r)) (local_targets env opts lang f deps)"
proof (induction deps)
  case Nil
  show ?case by (simp add: local_targets_def)
next
  case (Cons dep deps)
  have "map (\<lambda>e. (edge_from e, edge_to e))
          (filter (\<lambda>e. edge_type e = Local) (dep_edges env opts lang f p dep))
        = (case local_target env opts lang f dep of None \<Rightarrow> [] | Some r \<Rightarrow> [(p, r)])"
    by (cases "parser_classify lang dep"; cases "local_target env opts lang f dep")
       (auto simp: dep_edges_def local_target_def split: if_splits)
  with Cons show ?case
    by (simp add: local_targets_def split: option.splits)
qed

subsection \<open>Specifier lists have no duplicates\<close>

lemma set_add_distinct: "distinct xs \<Longrightarrow> distinct (set_add x xs)"
  by (simp add: set_add_def)

lemma exec_loop_distinct:
  "exec_loop pat body p rest deps = Some ds \<Longrightarrow>
   (\<forall>m xs. distinct xs \<longrightarrow> distinct (body m xs)) \<Longrightarrow> distinct deps \<Longrightarrow> distinct ds"
proof (induction pat body p rest deps ds rule: exec_loop.raw_induct[rotated 1, consumes 1])
  case (1 loop pat body prev rest deps ds)
  show ?case
  proof (cases "exec pat prev rest")
    case None
    with "1.hyps" "1.prems" show ?thesis by simp
  next
    case (Some a)
    obtain m1 p' r' where a: "a = (m1, (p', r'))" by (cases a) auto
    with Some "1.hyps" have l: "loop pat body p' r' (body m1 deps) = Some ds" by simp
    from "1.prems" have "distinct (body m1 deps)" by blast
    with "1.IH"[OF l] "1.prems"(1) show ?thesis by blast
  qed
qed

lemma from_body_distinct: "distinct xs \<Longrightarrow> distinct (from_body m xs)"
  by (simp add: from_body_def Let_def set_add_distinct)

lemma import_name_distinct: "distinct xs \<Longrightarrow> distinct (import_name xs m)"
  by (simp add: import_name_def Let_def set_add_distinct)

lemma import_body_distinct: "distinct xs \<Longrightarrow> distinct (import_body m xs)"
proof -
  have "distinct xs \<Longrightarrow> distinct (foldl import_name xs ms)" for ms
    by (induction ms arbitrary: xs) (simp_all add: import_name_distinct)
  then show "distinct xs \<Longrightarrow> distinct (import_body m xs)"
    by (simp add: import_body_def)
qed

lemma js_parse_distinct: "js_parse source = Some deps \<Longrightarrow> distinct deps"
proof -
  assume "js_parse source = Some deps"
  then obtain d1 d2 d3 where
    1: "exec_loop esImport set_add None (js_stripComments source) [] = Some d1" and
    2: "exec_loop esExport set_add None (js_stripComments source) d1 = Some d2" and
    3: "exec_loop cjsRequire set_add None (js_stripComments source) d2 = Some d3" and
    4: "exec_loop dynamicImport set_add None (js_stripComments source) d3 = Some deps"
    by (auto simp: js_parse_def Let_def split: Option.bind_splits)
  have step: "\<forall>m xs. distinct xs \<longrightarrow> distinct (set_add m xs)"
    by (simp add: set_add_distinct)
  from exec_loop_distinct[OF 1 step] have "distinct d1" by simp
  from exec_loop_distinct[OF 2 step this] have "distinct d2" .
  from exec_loop_distinct[OF 3 step this] have "distinct d3" .
  from exec_loop_distinct[OF 4 step this] show "distinct deps" .
qed

lemma py_parse_distinct: "py_parse source = Some deps \<Longrightarrow> distinct deps"
proof -
  assume "py_parse source = Some deps"
  then obtain d1 where
    1: "exec_loop fromPattern from_body None (py_stripComments source) [] = Some d1" and
    2: "exec_loop importPattern import_body None (py_stripComments source) d1 = Some deps"
    by (auto simp: py_parse_def Let_def split: Option.bind_splits)
  from exec_loop_distinct[OF 1] have "distinct d1" by (simp add: from_body_distinct)
  with exec_loop_distinct[OF 2] show "distinct deps" by (simp add: import_body_distinct)
qed

lemma scan_distinct: "scan env f = Some (lang, deps) \<Longrightarrow> distinct deps"
proof -
  assume "scan env f = Some (lang, deps)"
  from scan_SomeD(3)[OF this] obtain source where "parser_parse lang source = Some deps"
    by blast
  then show "distinct deps"
    by (cases lang) (simp_all add: js_parse_distinct py_parse_distinct)
qed

subsection \<open>Unresolved records\<close>

lemma dep_unresolved_set:
  "r \<in> set (dep_unresolved env opts lang f p dep) \<Longrightarrow>
     r = \<lparr> unresolved_from = p, unresolved_specifier = dep \<rparr>"
  by (simp add: dep_unresolved_def split: if_splits)

lemma distinct_dep_unresolved:
  "distinct deps \<Longrightarrow> distinct (concat (map (dep_unresolved env opts lang f p) deps))"
proof (induction deps)
  case Nil
  show ?case by simp
next
  case (Cons dep deps)
  have "set (dep_unresolved env opts lang f p dep)
          \<inter> set (concat (map (dep_unresolved env opts lang f p) deps)) = {}"
  proof (rule ccontr)
    assume "\<not> ?thesis"
    then obtain r dep' where "r \<in> set (dep_unresolved env opts lang f p dep)"
      "dep' \<in> set deps" "r \<in> set (dep_unresolved env opts lang f p dep')"
      by auto
    with dep_unresolved_set[of r env opts lang f p dep] dep_unresolved_set[of r env opts lang f p dep']
    have "dep = dep'" by simp
    with Cons.prems \<open>dep' \<in> set deps\<close> show False by simp
  qed
  moreover have "distinct (dep_unresolved env opts lang f p dep)"
    by (simp add: dep_unresolved_def)
  ultimately show ?case using Cons by simp
qed

lemma file_unresolved_from:
  "r \<in> set (file_unresolved env opts pf) \<Longrightarrow> unresolved_from r = fst pf"
  by (auto simp: file_unresolved_def split: option.splits dest: dep_unresolved_set)

lemma distinct_file_unresolved: "distinct (file_unresolved env opts pf)"
  by (auto simp: file_unresolved_def split: option.splits
           intro: distinct_dep_unresolved scan_distinct)

lemma distinct_unresolved_log:
  "distinct (map fst pfs) \<Longrightarrow> distinct (concat (map (file_unresolved env opts) pfs))"
proof (induction pfs)
  case Nil
  show ?case by simp
next
  case (Cons pf pfs)
  have "set (file_unresolved env opts pf) \<inter> set (concat (map (file_unresolved env opts) pfs)) = {}"
  proof (rule ccontr)
    assume "\<not> ?thesis"
    then obtain r pf' where "r \<in> set (file_unresolved env opts pf)" "pf' \<in> set pfs"
      "r \<in> set (file_unresolved env opts pf')"
      by auto
    with file_unresolved_from[of r env opts pf] file_unresolved_from[of r env opts pf']
    have "fst pf = fst pf'" by simp
    with Cons.prems \<open>pf' \<in> set pfs\<close> show False by force
  qed
  with Cons distinct_file_unresolved[of env opts pf] show ?case by simp
qed

lemma count_one: "distinct xs \<Longrightarrow> x \<in> set xs \<Longrightarrow> count_list xs x = 1"
  by (induction xs) (auto simp: count_list_0_iff)

lemma distinct_fst_unique:
  "distinct (map fst pfs) \<Longrightarrow> (p, f) \<in> set pfs \<Longrightarrow> (p, f') \<in> set pfs \<Longrightarrow> f = f'"
  by (meson eq_key_imp_eq_value)

subsection \<open>The POSIX path functions\<close>

text \<open>
  \<^verbatim>\<open>resolve\<close> returns a normalised absolute path, and resolving a root-relative path
  against the root gives back the file it was computed from: the relative path of the
  result is the relative path one started with.
\<close>

lemma str_split_nonempty: "str_split sep s \<noteq> []"
  by (induction s) (auto split: list.splits)

lemma str_split_append:
  "str_split sep (a @ sep # b) = str_split sep a @ str_split sep b"
proof (induction a)
  case Nil
  show ?case by simp
next
  case (Cons c cs)
  obtain w ws where w: "str_split sep cs = w # ws"
    using str_split_nonempty[of sep cs] by (cases "str_split sep cs") auto
  show ?case using Cons w by simp
qed

lemma str_split_no_sep: "w \<in> set (str_split sep s) \<Longrightarrow> sep \<notin> set w"
proof (induction s arbitrary: w)
  case Nil
  then show ?case by simp
next
  case (Cons c cs)
  obtain v vs where v: "str_split sep cs = v # vs"
    using str_split_nonempty[of sep cs] by (cases "str_split sep cs") auto
  show ?case
  proof (cases "c = sep")
    case True
    with Cons show ?thesis by auto
  next
    case False
    with Cons.prems v have "w = c # v \<or> w \<in> set vs" by simp
    with Cons.IH v False show ?thesis by auto
  qed
qed

lemma str_split_plain: "sep \<notin> set s \<Longrightarrow> str_split sep s = [s]"
  by (induction s) auto

lemma segments_append: "segments (a @ CHR ''/'' # b) = segments a @ segments b"
  by (simp add: segments_def str_split_append)

lemma segments_Nil: "segments [] = []"
  by (simp add: segments_def)

lemma segments_plain: "s \<noteq> [] \<Longrightarrow> CHR ''/'' \<notin> set s \<Longrightarrow> segments s = [s]"
  by (simp add: segments_def str_split_plain)

lemma segments_elem: "s \<in> set (segments p) \<Longrightarrow> s \<noteq> [] \<and> CHR ''/'' \<notin> set s"
  by (auto simp: segments_def dest: str_split_no_sep)

lemma foldl_intercalate:
  "foldl (\<lambda>acc s. acc @ sep @ s) y ys = y @ concat (map (\<lambda>s. sep @ s) ys)"
  by (induction ys arbitrary: y) auto

lemma intercalate_Cons:
  "intercalate sep (y # ys) = y @ concat (map (\<lambda>s. sep @ s) ys)"
  by (simp add: intercalate_def foldl_intercalate)

lemma segments_concat:
  "\<forall>s\<in>set ys. s \<noteq> [] \<and> CHR ''/'' \<notin> set s \<Longrightarrow>
   segments (y @ concat (map ((#) CHR ''/'') ys)) = segments y @ ys"
proof (induction ys arbitrary: y rule: rev_induct)
  case Nil
  show ?case by simp
next
  case (snoc z zs)
  have "segments (y @ concat (map ((#) CHR ''/'') (zs @ [z])))
          = segments ((y @ concat (map ((#) CHR ''/'') zs)) @ CHR ''/'' # z)"
    by simp
  also have "\<dots> = segments (y @ concat (map ((#) CHR ''/'') zs)) @ segments z"
    by (rule segments_append)
  also have "\<dots> = (segments y @ zs) @ [z]"
    using snoc by (simp add: segments_plain)
  finally show ?case by simp
qed

lemma segments_rooted:
  assumes "\<forall>s\<in>set xs. s \<noteq> [] \<and> CHR ''/'' \<notin> set s"
  shows "segments (CHR ''/'' # intercalate ''/'' xs) = xs"
proof (cases xs)
  case Nil
  then show ?thesis by (simp add: intercalate_def segments_def)
next
  case (Cons y ys)
  have "segments (CHR ''/'' # intercalate ''/'' xs) = segments ([] @ CHR ''/'' # intercalate ''/'' xs)"
    by simp
  also have "\<dots> = segments (intercalate ''/'' xs)"
    unfolding segments_append by (simp add: segments_Nil)
  also have "\<dots> = segments y @ ys"
    using assms Cons by (simp add: intercalate_Cons segments_concat)
  also have "\<dots> = xs"
    using assms Cons by (simp add: segments_plain)
  finally show ?thesis .
qed

lemma segments_relative:
  assumes "\<forall>s\<in>set xs. s \<noteq> [] \<and> CHR ''/'' \<notin> set s"
  shows "segments (intercalate ''/'' xs) = xs"
proof (cases xs)
  case Nil
  then show ?thesis by (simp add: intercalate_def segments_def)
next
  case (Cons y ys)
  then show ?thesis
    using assms by (simp add: intercalate_Cons segments_concat segments_plain)
qed


lemma normalizeSegments_plain:
  "\<forall>a\<in>set acc. plain_segment a \<Longrightarrow> \<forall>s\<in>set ss. s \<noteq> [] \<and> CHR ''/'' \<notin> set s \<Longrightarrow>
   \<forall>s\<in>set (normalizeSegments False acc ss). plain_segment s"
proof (induction ss arbitrary: acc)
  case Nil
  then show ?case by simp
next
  case (Cons x xs)
  note IH = Cons.IH and prems = Cons.prems
  from prems have rest: "\<forall>s\<in>set xs. s \<noteq> [] \<and> CHR ''/'' \<notin> set s" by simp
  show ?case
  proof (cases "x = ''.''")
    case True
    with IH[OF prems(1) rest] show ?thesis by simp
  next
    case dot: False
    show ?thesis
    proof (cases "x = ''..''")
      case True
      show ?thesis
      proof (cases acc)
        case Nil
        have "\<forall>a\<in>set ([] :: string list). plain_segment a" by simp
        from IH[OF this rest] True Nil show ?thesis by simp
      next
        case (Cons a as)
        with prems have "a \<noteq> ''..''" and as: "\<forall>a\<in>set as. plain_segment a"
          by (auto simp: plain_segment_def)
        with True Cons IH[OF as rest] show ?thesis by simp
      qed
    next
      case False
      with dot prems have "\<forall>a\<in>set (x # acc). plain_segment a"
        by (auto simp: plain_segment_def)
      from IH[OF this rest] dot False show ?thesis by simp
    qed
  qed
qed

lemma normalizeSegments_append:
  "normalizeSegments b acc (xs @ ys) = normalizeSegments b (rev (normalizeSegments b acc xs)) ys"
  by (induction xs arbitrary: acc) (auto split: list.split)

lemma normalizeSegments_id:
  "\<forall>s\<in>set xs. s \<noteq> ''.'' \<and> s \<noteq> ''..'' \<Longrightarrow> normalizeSegments b acc xs = rev acc @ xs"
  by (induction xs arbitrary: acc) auto

lemma normalizeSegments_up:
  "\<forall>a\<in>set as. a \<noteq> ''..'' \<Longrightarrow>
   normalizeSegments b (as @ acc) (replicate (length as) ''..'' @ ys) = normalizeSegments b acc ys"
  by (induction as) auto

lemma dropCommon_prefix:
  "dropCommon xs ys = (fs, ts) \<Longrightarrow> \<exists>c. xs = c @ fs \<and> ys = c @ ts"
proof (induction xs ys rule: dropCommon.induct)
  case (1 x xs y ys)
  show ?case
  proof (cases "x = y")
    case True
    with 1 obtain c where "xs = c @ fs" "ys = c @ ts" by auto
    with True have "x # xs = (x # c) @ fs \<and> y # ys = (x # c) @ ts" by simp
    then show ?thesis by blast
  next
    case False
    with 1 show ?thesis by auto
  qed
qed auto

lemma posix_isAbsolute_simps:
  "posix_isAbsolute [] = False" "posix_isAbsolute (CHR ''/'' # p) = True"
  "c \<noteq> CHR ''/'' \<Longrightarrow> posix_isAbsolute (c # p) = False"
  by (simp_all add: posix_isAbsolute_def startsWith_def)

lemma posix_resolve_form:
  assumes "posix_isAbsolute cwd"
  shows "posix_resolve cwd a b =
     CHR ''/'' # intercalate ''/'' (normalizeSegments False []
       ((if posix_isAbsolute b then []
         else if posix_isAbsolute a then segments a
         else segments cwd @ segments a) @ segments b))"
proof -
  have s1: "\<And>p. segments (p @ ''/'') = segments p"
    using segments_append[of _ "[]"] by (simp add: segments_Nil)
  have cwd: "cwd \<noteq> []"
    using assms by (auto simp: posix_isAbsolute_simps)
  show ?thesis
    using assms cwd
    by (auto simp: posix_resolve_def Let_def s1 segments_append segments_Nil posix_isAbsolute_simps)
qed


lemma posix_resolve_plain:
  assumes "posix_isAbsolute cwd"
  shows "\<exists>N. posix_resolve cwd a b = CHR ''/'' # intercalate ''/'' N \<and> (\<forall>s\<in>set N. plain_segment s)"
proof -
  let ?S = "(if posix_isAbsolute b then []
             else if posix_isAbsolute a then segments a
             else segments cwd @ segments a) @ segments b"
  have "\<forall>s\<in>set ?S. s \<noteq> [] \<and> CHR ''/'' \<notin> set s"
    using segments_elem by auto
  then have "\<forall>s\<in>set (normalizeSegments False [] ?S). plain_segment s"
    by (intro normalizeSegments_plain) simp_all
  with posix_resolve_form[OF assms, of a b] show ?thesis by blast
qed

lemma posix_resolve_idem:
  assumes "posix_isAbsolute cwd" and "\<forall>s\<in>set N. plain_segment s"
  shows "posix_resolve cwd [] (CHR ''/'' # intercalate ''/'' N) = CHR ''/'' # intercalate ''/'' N"
proof -
  have "segments (CHR ''/'' # intercalate ''/'' N) = N"
    using assms(2) by (intro segments_rooted) (simp add: plain_segment_def)
  moreover have "normalizeSegments False [] N = N"
    using assms(2) normalizeSegments_id[of N False "[]"] by (simp add: plain_segment_def)
  ultimately show ?thesis
    by (simp add: posix_resolve_form[OF assms(1)] posix_isAbsolute_simps)
qed

lemma posix_relative_cong:
  "posix_resolve cwd [] y = posix_resolve cwd [] x \<Longrightarrow>
   posix_relative cwd root y = posix_relative cwd root x"
  by (simp add: posix_relative_def)

lemma posix_resolve_relative:
  assumes cwd: "posix_isAbsolute cwd"
  shows "posix_resolve cwd root (posix_relative cwd root x) = posix_resolve cwd [] x"
proof -
  let ?S = "if posix_isAbsolute root then segments root else segments cwd @ segments root"
  define F where "F = normalizeSegments False [] ?S"
  have f: "posix_resolve cwd [] root = CHR ''/'' # intercalate ''/'' F"
    by (simp add: posix_resolve_form[OF cwd] F_def posix_isAbsolute_simps segments_Nil)
  have Fp: "\<forall>s\<in>set F. plain_segment s"
    unfolding F_def using segments_elem by (intro normalizeSegments_plain) auto
  obtain T where t: "posix_resolve cwd [] x = CHR ''/'' # intercalate ''/'' T"
    and Tp: "\<forall>s\<in>set T. plain_segment s"
    using posix_resolve_plain[OF cwd, of "[]" x] by blast
  have segF: "segments (CHR ''/'' # intercalate ''/'' F) = F"
    using Fp by (intro segments_rooted) (simp add: plain_segment_def)
  have segT: "segments (CHR ''/'' # intercalate ''/'' T) = T"
    using Tp by (intro segments_rooted) (simp add: plain_segment_def)
  show ?thesis
  proof (cases "F = T")
    case True
    then have "posix_relative cwd root x = []"
      by (simp add: posix_relative_def f t)
    moreover have "posix_resolve cwd root [] = CHR ''/'' # intercalate ''/'' F"
      by (simp add: posix_resolve_form[OF cwd] F_def posix_isAbsolute_simps segments_Nil)
    ultimately show ?thesis using True t by simp
  next
    case False
    obtain fs ts where dc: "dropCommon F T = (fs, ts)"
      by (cases "dropCommon F T") auto
    then obtain c where c: "F = c @ fs" "T = c @ ts"
      using dropCommon_prefix by blast
    let ?R = "replicate (length fs) ''..'' @ ts"
    have ne: "CHR ''/'' # intercalate ''/'' F \<noteq> CHR ''/'' # intercalate ''/'' T"
      using False segF segT by auto
    have r: "posix_relative cwd root x = intercalate ''/'' ?R"
      using ne by (simp add: posix_relative_def f t segF segT dc map_replicate_const)
    have up: "''..'' \<noteq> [] \<and> CHR ''/'' \<notin> set ''..''"
      by simp
    have tsp: "\<forall>s\<in>set ts. s \<noteq> [] \<and> CHR ''/'' \<notin> set s"
      using Tp c(2) by (simp add: plain_segment_def)
    have Rp: "\<forall>s\<in>set ?R. s \<noteq> [] \<and> CHR ''/'' \<notin> set s"
    proof
      fix s
      assume "s \<in> set ?R"
      then have "s = ''..'' \<or> s \<in> set ts"
        by (auto simp del: replicate.simps)
      with up tsp show "s \<noteq> [] \<and> CHR ''/'' \<notin> set s"
        by blast
    qed
    have segR: "segments (intercalate ''/'' ?R) = ?R"
      using Rp by (rule segments_relative)
    from False c have "?R \<noteq> []" by auto
    then obtain y ys where R: "?R = y # ys" by (cases ?R) auto
    then have "y \<in> set ?R" by simp
    with Rp have "y \<noteq> []" "CHR ''/'' \<notin> set y"
      by blast+
    then obtain y0 yr where y: "y = y0 # yr" "y0 \<noteq> CHR ''/''"
      by (cases y) auto
    have nabs: "\<not> posix_isAbsolute (intercalate ''/'' ?R)"
      unfolding R by (simp add: intercalate_Cons y posix_isAbsolute_simps)
    have "normalizeSegments False [] (?S @ ?R) = normalizeSegments False (rev F) ?R"
      by (simp add: normalizeSegments_append F_def)
    also have "rev F = rev fs @ rev c"
      using c by simp
    also have "normalizeSegments False (rev fs @ rev c) ?R = normalizeSegments False (rev c) ts"
      using normalizeSegments_up[of "rev fs" False "rev c" ts] Fp c
      by (auto simp: plain_segment_def)
    also have "\<dots> = T"
      using normalizeSegments_id[of ts False "rev c"] Tp c by (auto simp: plain_segment_def)
    finally have N: "normalizeSegments False [] (?S @ ?R) = T" .
    have "posix_resolve cwd root (intercalate ''/'' ?R) = CHR ''/'' # intercalate ''/'' T"
      unfolding posix_resolve_form[OF cwd] segR using nabs N by (simp add: segments_Nil)
    with r t show ?thesis by simp
  qed
qed

lemma posix_roundtrip:
  assumes "posix_isAbsolute cwd"
  shows "posix_relative cwd root (posix_resolve cwd root (posix_relative cwd root x))
           = posix_relative cwd root x"
proof -
  obtain T where t: "posix_resolve cwd [] x = CHR ''/'' # intercalate ''/'' T"
    and Tp: "\<forall>s\<in>set T. plain_segment s"
    using posix_resolve_plain[OF assms, of "[]" x] by blast
  have "posix_resolve cwd [] (posix_resolve cwd root (posix_relative cwd root x))
          = posix_resolve cwd [] x"
    unfolding posix_resolve_relative[OF assms] t by (rule posix_resolve_idem[OF assms Tp])
  then show ?thesis by (rule posix_relative_cong)
qed

lemma posix_path_law:
  assumes "posix_isAbsolute cwd"
  shows "path_relative (posix cwd files) root
           (path_resolve (posix cwd files) root (path_relative (posix cwd files) root x))
         = path_relative (posix cwd files) root x"
  using posix_roundtrip[OF assms] by (simp add: posix_def)

subsection \<open>The scenarios, evaluated\<close>

lemma finite_posix: "finite {p. existsSync (posix cwd files) p}"
proof -
  have "{p. existsSync (posix cwd files) p} = dom (map_of files)"
    by (auto simp: posix_def)
  then show ?thesis by (simp add: finite_dom_map_of)
qed

lemma json_build:
  "buildGraph (posix ''/'' json_files) [''index.js''] (proj_opts Infinity) = Some (Inr json_graph)"
  by code_simp

lemma alias_build:
  "buildGraph (posix ''/'' alias_files) [''/proj/b.js/'', ''a.js''] (proj_opts Infinity)
     = Some (Inr alias_graph)"
  by code_simp

lemma chain_build:
  "buildGraph (posix ''/'' chain_files) [''a.js''] (proj_opts (Limit 1)) = Some (Inr chain_graph)"
  by code_simp

lemma chain_scans:
  "(case build_loop (posix ''/'' chain_files) (proj_opts (Limit 1))
           (initial_state (posix ''/'' chain_files) [''a.js''] (proj_opts (Limit 1))) of
      Some (Inr st) \<Rightarrow> scanned st = [(''a.js'', ''/proj/a.js''), (''b.js'', ''/proj/b.js'')]
    | _ \<Rightarrow> False)"
  by code_simp

lemma json_reachable:
  assumes "f \<in> reachable (posix ''/'' json_files) (proj_opts Infinity) [''index.js'']"
  shows "f = ''/proj/index.js'' \<or> f = ''/proj/data.json''"
  using assms
proof (induction rule: reachable.induct)
  case (entry e)
  have "entry_file (posix ''/'' json_files) (proj_opts Infinity) ''index.js'' = ''/proj/index.js''"
    by code_simp
  with entry show ?case by simp
next
  case (import f lang deps resolved)
  have a: "scan (posix ''/'' json_files) ''/proj/index.js'' = Some (JavaScript, [''./data.json''])"
    by code_simp
  have b: "scan (posix ''/'' json_files) ''/proj/data.json'' = None"
    by code_simp
  have c: "local_targets (posix ''/'' json_files) (proj_opts Infinity) JavaScript
             ''/proj/index.js'' [''./data.json''] = [''data.json'']"
    by code_simp
  have d: "path_resolve (posix ''/'' json_files) (rootDir (proj_opts Infinity)) ''data.json''
             = ''/proj/data.json''"
    by code_simp
  from import.IH import.hyps(2) b have f: "f = ''/proj/index.js''" by auto
  with import.hyps(2,3) a c have "resolved = ''data.json''" by simp
  with d show ?case by simp
qed

lemma missing_scans:
  "(case build_loop (posix ''/'' missing_files) (proj_opts Infinity)
           (initial_state (posix ''/'' missing_files) [''index.js''] (proj_opts Infinity)) of
      Some (Inr st) \<Rightarrow> scanned st = [(''index.js'', ''/proj/index.js'')]
         \<and> unresolved st = [\<lparr> unresolved_from = ''index.js'', unresolved_specifier = ''./missing'' \<rparr>]
         \<and> edges st = []
    | _ \<Rightarrow> False)"
  by code_simp

section \<open>Classification (claim C6)\<close>

text \<open>
  Claim C6 as stated fails: \<^verbatim>\<open>node:path\<close> has a leading segment that is not in the fixed
  list, and the rule of the specification makes it external, but the program classifies
  every specifier that starts with \<^verbatim>\<open>node:\<close> as builtin.
\<close>

theorem classify_node_prefix_counterexample:
  "js_classify ''node:path'' = Builtin \<and> spec_classify JavaScript ''node:path'' = External"
  by (simp add: js_classify_def isNodeBuiltin_def startsWith_def spec_classify_def NODE_BUILTINS_def)

text \<open>
  Claim C6, amended: a leading \<^verbatim>\<open>.\<close> or \<^verbatim>\<open>/\<close> (JavaScript), a leading \<^verbatim>\<open>.\<close> (Python)
  makes the specifier local; otherwise a JavaScript specifier that starts with \<^verbatim>\<open>node:\<close>
  is builtin; otherwise the leading segment decides by membership in the fixed list, and
  a name absent from the list is external.  A scoped name \<^verbatim>\<open>@scope/name\<close> is external.
\<close>

theorem classify_priority_rules:
  "js_classify s =
     (if startsWith s ''.'' \<or> startsWith s ''/'' then Local
      else if startsWith s ''node:'' then Builtin
      else spec_classify JavaScript s)
   \<and> py_classify s = spec_classify Python s
   \<and> js_classify (CHR ''@'' # rest) = External"
proof (intro conjI)
  show "js_classify s =
     (if startsWith s ''.'' \<or> startsWith s ''/'' then Local
      else if startsWith s ''node:'' then Builtin
      else spec_classify JavaScript s)"
    by (simp add: js_classify_def isNodeBuiltin_def spec_classify_def first_elem_str_split)
  show "py_classify s = spec_classify Python s"
    by (simp add: py_classify_def spec_classify_def first_elem_str_split)
  have "takeWhile (\<lambda>c. c \<noteq> CHR ''/'') (CHR ''@'' # rest) \<notin> set NODE_BUILTINS"
    by (simp add: NODE_BUILTINS_def)
  then show "js_classify (CHR ''@'' # rest) = External"
    by (simp add: js_classify_def isNodeBuiltin_def startsWith_def first_elem_str_split
             del: str_split.simps takeWhile.simps)
qed

section \<open>Local resolution (claim C7)\<close>

text \<open>
  Claim C7: let \<open>target\<close> be the specifier resolved against the directory of the
  originating file, and \<open>exts\<close> the extensions of the originating file's language in the
  order of the source: the eight JavaScript and TypeScript extensions when the file's
  extension, in lower case, is one of them, \<^verbatim>\<open>.py\<close> alone when it is \<^verbatim>\<open>.py\<close>, and none
  otherwise.  \<^verbatim>\<open>resolveLocal\<close> returns the exact target when it is a regular file; else
  the target with the first extension of \<open>exts\<close> for which a regular file exists; else,
  when the target is a directory, the first existing \<^verbatim>\<open>index.<ext>\<close> inside it; and it
  returns the unresolved marker exactly when all three fail.  Every path is returned
  relative to the root.
\<close>

theorem resolveLocal_order:
  assumes target: "target = path_resolve env (path_dirname env fromFile) specifier"
    and ext: "from_ext = toLowerCase (path_extname env fromFile)"
    and js: "js = [''.js'', ''.mjs'', ''.cjs'', ''.jsx'', ''.ts'', ''.tsx'', ''.mts'', ''.cts'']"
    and exts: "exts = (if from_ext \<in> set js then js else if from_ext = ''.py'' then [''.py''] else [])"
  shows "(existsSync env target \<and> isFile env target \<longrightarrow>
            resolveLocal env specifier fromFile root = Some (path_relative env root target))
       \<and> (\<not> (existsSync env target \<and> isFile env target) \<and> exts = pre @ x # post
            \<and> (\<forall>y\<in>set pre. \<not> (existsSync env (target @ y) \<and> isFile env (target @ y)))
            \<and> existsSync env (target @ x) \<and> isFile env (target @ x) \<longrightarrow>
            resolveLocal env specifier fromFile root = Some (path_relative env root (target @ x)))
       \<and> (\<not> (existsSync env target \<and> isFile env target)
            \<and> (\<forall>y\<in>set exts. \<not> (existsSync env (target @ y) \<and> isFile env (target @ y)))
            \<and> (existsSync env target \<and> isDirectory env target) \<and> exts = pre @ x # post
            \<and> (\<forall>y\<in>set pre. \<not> existsSync env (path_join env target (''index'' @ y)))
            \<and> existsSync env (path_join env target (''index'' @ x)) \<longrightarrow>
            resolveLocal env specifier fromFile root =
              Some (path_relative env root (path_join env target (''index'' @ x))))
       \<and> (resolveLocal env specifier fromFile root = None \<longleftrightarrow>
            \<not> (existsSync env target \<and> isFile env target)
            \<and> (\<forall>y\<in>set exts. \<not> (existsSync env (target @ y) \<and> isFile env (target @ y)))
            \<and> (existsSync env target \<and> isDirectory env target \<longrightarrow>
                 (\<forall>y\<in>set exts. \<not> existsSync env (path_join env target (''index'' @ y)))))"
proof -
  have T: "resolve_target env specifier fromFile = target"
    by (simp add: target resolve_target_def)
  have E: "resolve_exts env fromFile = exts"
    unfolding exts ext js by (rule resolve_exts_body)
  let ?P = "\<lambda>e. regular_file env (target @ e)"
  let ?Q = "\<lambda>e. existsSync env (path_join env target (''index'' @ e))"
  have R: "\<And>p. (existsSync env p \<and> isFile env p) = regular_file env p"
    by (simp add: regular_file_def)
  have D: "(existsSync env target \<and> isDirectory env target) = directory env target"
    by (simp add: directory_def)
  have rl: "resolveLocal env specifier fromFile root =
     (if regular_file env target then Some (path_relative env root target)
      else (case find ?P exts of
              Some e \<Rightarrow> Some (path_relative env root (target @ e))
            | None \<Rightarrow>
                if directory env target
                then (case find ?Q exts of
                        Some e \<Rightarrow> Some (path_relative env root (path_join env target (''index'' @ e)))
                      | None \<Rightarrow> None)
                else None))"
    by (simp add: resolveLocal_def T E)
  show ?thesis
    unfolding R D
  proof (intro conjI impI)
    assume "regular_file env target"
    then show "resolveLocal env specifier fromFile root = Some (path_relative env root target)"
      by (simp add: rl)
  next
    assume h: "\<not> regular_file env target \<and> exts = pre @ x # post
              \<and> (\<forall>y\<in>set pre. \<not> regular_file env (target @ y))
              \<and> regular_file env (target @ x)"
    then have "find ?P exts = Some x"
      using find_first_hit[of ?P x pre post] by simp
    then show "resolveLocal env specifier fromFile root = Some (path_relative env root (target @ x))"
      using h by (simp add: rl)
  next
    assume h: "\<not> regular_file env target \<and> (\<forall>y\<in>set exts. \<not> regular_file env (target @ y))
              \<and> directory env target \<and> exts = pre @ x # post
              \<and> (\<forall>y\<in>set pre. \<not> existsSync env (path_join env target (''index'' @ y)))
              \<and> existsSync env (path_join env target (''index'' @ x))"
    then have "\<forall>y\<in>set exts. \<not> regular_file env (target @ y)"
      by (elim conjE)
    then have none: "find ?P exts = None"
      by (simp add: find_no_hit)
    have "find ?Q exts = Some x"
      using h find_first_hit[of ?Q x pre post] by simp
    then show "resolveLocal env specifier fromFile root =
                Some (path_relative env root (path_join env target (''index'' @ x)))"
      using h none by (simp add: rl)
  next
    have A: "(\<forall>y\<in>set exts. \<not> regular_file env (target @ y)) = (find ?P exts = None)"
      by (simp add: find_no_hit)
    have B: "(\<forall>y\<in>set exts. \<not> existsSync env (path_join env target (''index'' @ y)))
               = (find ?Q exts = None)"
      by (simp add: find_no_hit)
    show "resolveLocal env specifier fromFile root = None \<longleftrightarrow>
              \<not> regular_file env target \<and> (\<forall>y\<in>set exts. \<not> regular_file env (target @ y))
              \<and> (directory env target \<longrightarrow>
                   (\<forall>y\<in>set exts. \<not> existsSync env (path_join env target (''index'' @ y))))"
      unfolding A B rl
      by (cases "find ?P exts"; cases "find ?Q exts"; simp)
  qed
qed


theorem resolveLocal_order_witness:
  "resolveLocal (posix ''/'' tree_files) ''./b.js'' ''/proj/src/a.js'' ''/proj'' = Some ''src/b.js''
   \<and> resolveLocal (posix ''/'' tree_files) ''./b'' ''/proj/src/a.js'' ''/proj'' = Some ''src/b.js''
   \<and> resolveLocal (posix ''/'' tree_files) ''./lib'' ''/proj/src/a.js'' ''/proj'' = Some ''src/lib/index.js''
   \<and> resolveLocal (posix ''/'' tree_files) ''./c'' ''/proj/src/a.js'' ''/proj'' = None
   \<and> resolveLocal (posix ''/'' tree_files) ''./b'' ''/proj/src/m.py'' ''/proj'' = None
   \<and> resolveLocal (posix ''/'' tree_files) ''./b'' ''/proj/src/cfg.json'' ''/proj'' = None"
proof -
  let ?E = "posix ''/'' tree_files"
  let ?f = "''/proj/src/a.js''"
  let ?post = "[''.mjs'', ''.cjs'', ''.jsx'', ''.ts'', ''.tsx'', ''.mts'', ''.cts'']"
  have x: "''.js'' = toLowerCase (path_extname ?E ?f)" by code_simp
  have xp: "''.py'' = toLowerCase (path_extname ?E ''/proj/src/m.py'')" by code_simp
  have xj: "''.json'' = toLowerCase (path_extname ?E ''/proj/src/cfg.json'')" by code_simp
  have t1: "''/proj/src/b.js'' = path_resolve ?E (path_dirname ?E ?f) ''./b.js''" by code_simp
  have t2: "''/proj/src/b'' = path_resolve ?E (path_dirname ?E ?f) ''./b''" by code_simp
  have t3: "''/proj/src/lib'' = path_resolve ?E (path_dirname ?E ?f) ''./lib''" by code_simp
  have t4: "''/proj/src/c'' = path_resolve ?E (path_dirname ?E ?f) ''./c''" by code_simp
  have t5: "''/proj/src/b'' = path_resolve ?E (path_dirname ?E ''/proj/src/m.py'') ''./b''" by code_simp
  have t6: "''/proj/src/b'' = path_resolve ?E (path_dirname ?E ''/proj/src/cfg.json'') ''./b''" by code_simp
  have r1: "existsSync ?E ''/proj/src/b.js'' \<and> isFile ?E ''/proj/src/b.js''" by code_simp
  have r2: "\<not> (existsSync ?E ''/proj/src/b'' \<and> isFile ?E ''/proj/src/b'')
              \<and> existsSync ?E (''/proj/src/b'' @ ''.js'') \<and> isFile ?E (''/proj/src/b'' @ ''.js'')"
    by code_simp
  have r3: "\<not> (existsSync ?E ''/proj/src/lib'' \<and> isFile ?E ''/proj/src/lib'')
              \<and> (\<forall>y\<in>set (''.js'' # ?post).
                    \<not> (existsSync ?E (''/proj/src/lib'' @ y) \<and> isFile ?E (''/proj/src/lib'' @ y)))
              \<and> (existsSync ?E ''/proj/src/lib'' \<and> isDirectory ?E ''/proj/src/lib'')
              \<and> existsSync ?E (path_join ?E ''/proj/src/lib'' (''index'' @ ''.js''))" by code_simp
  have r4: "\<not> (existsSync ?E ''/proj/src/c'' \<and> isFile ?E ''/proj/src/c'')
              \<and> (\<forall>y\<in>set (''.js'' # ?post).
                    \<not> (existsSync ?E (''/proj/src/c'' @ y) \<and> isFile ?E (''/proj/src/c'' @ y)))
              \<and> \<not> (existsSync ?E ''/proj/src/c'' \<and> isDirectory ?E ''/proj/src/c'')" by code_simp
  have r5: "\<not> (existsSync ?E (''/proj/src/b'' @ ''.py'') \<and> isFile ?E (''/proj/src/b'' @ ''.py''))
              \<and> \<not> (existsSync ?E ''/proj/src/b'' \<and> isDirectory ?E ''/proj/src/b'')" by code_simp
  have p1: "path_relative ?E ''/proj'' ''/proj/src/b.js'' = ''src/b.js''" by code_simp
  have p2: "path_relative ?E ''/proj'' (''/proj/src/b'' @ ''.js'') = ''src/b.js''" by code_simp
  have p3: "path_relative ?E ''/proj'' (path_join ?E ''/proj/src/lib'' (''index'' @ ''.js'')) = ''src/lib/index.js''" by code_simp
  have a: "resolveLocal ?E ''./b.js'' ?f ''/proj'' = Some ''src/b.js''"
    using resolveLocal_order[OF t1 x refl refl, of "''/proj''"] r1 p1 by simp
  have b: "resolveLocal ?E ''./b'' ?f ''/proj'' = Some ''src/b.js''"
    using resolveLocal_order[OF t2 x refl refl, of "''/proj''" "[]" "''.js''" ?post] r2 p2 by simp
  have c: "resolveLocal ?E ''./lib'' ?f ''/proj'' = Some ''src/lib/index.js''"
    using resolveLocal_order[OF t3 x refl refl, of "''/proj''" "[]" "''.js''" ?post] r3 p3 by simp
  have d: "resolveLocal ?E ''./c'' ?f ''/proj'' = None"
    using resolveLocal_order[OF t4 x refl refl, of "''/proj''"] r4 by simp
  have e: "resolveLocal ?E ''./b'' ''/proj/src/m.py'' ''/proj'' = None"
    using resolveLocal_order[OF t5 xp refl refl, of "''/proj''"] r2 r5 by simp
  have f: "resolveLocal ?E ''./b'' ''/proj/src/cfg.json'' ''/proj'' = None"
    using resolveLocal_order[OF t6 xj refl refl, of "''/proj''"] r2 r5 by simp
  show ?thesis using a b c d e f by simp
qed

section \<open>Decoys inside string literals (claim C2)\<close>

text \<open>
  Claim C2 says that an import-like token inside a string literal that is not the argument
  of an import construct never appears among the extracted specifiers.  Both scanners keep
  string literals intact and match inside them: on the two decoy sources, which import
  nothing, each scanner extracts \<^verbatim>\<open>fake\<close>.
\<close>

theorem scanners_extract_from_string_literal:
  "js_parse decoy_js = Some [''fake''] \<and> py_parse decoy_py = Some [''fake'']"
  by code_simp

section \<open>The scanners always return (claim C9)\<close>

text \<open>
  Claim C9: for every input text both scanners return a list of specifiers.  No operation
  of the scanners can throw (indexing past the end of a string yields \<^verbatim>\<open>undefined\<close>,
  which the model writes out), so the only way not to return normally is a
  \<^verbatim>\<open>while (exec)\<close> loop that never ends, the value \<open>None\<close> of the model; malformed input
  only yields fewer matches.
\<close>

theorem parse_always_returns:
  "(\<exists>deps. js_parse source = Some deps) \<and> (\<exists>deps. py_parse source = Some deps)"
  using js_parse_returns py_parse_returns by blast

section \<open>Termination and its bounds (claim C1)\<close>

text \<open>
  Claim C1: on a finite filesystem \<^verbatim>\<open>buildGraph\<close> terminates (it returns a graph or
  raises the error of \<^verbatim>\<open>readFileSync\<close>).  When the loop ends normally, no path was scanned
  twice, every scanned path is in the visited set, and the number of scans is at most the
  number of existing files reachable from the entries.  In every turn of the loop the
  queue grows only by items for local specifiers that resolved, found in a file whose
  path was not yet visited when the turn began.
\<close>

theorem buildGraph_terminates_bounded:
  assumes "finite {p. existsSync env p}"
  shows "(\<exists>r. buildGraph env entries opts = Some r)
       \<and> (\<forall>st. build_loop env opts (initial_state env entries opts) = Some (Inr st) \<longrightarrow>
             distinct (map fst (scanned st)) \<and> fst ` set (scanned st) \<subseteq> visited st
             \<and> length (scanned st) \<le> card {f \<in> reachable env opts entries. existsSync env f})
       \<and> (\<forall>st f d st'. visit env opts st f d = Some (Inr st') \<longrightarrow>
             (\<exists>pushed. queue st' = queue st @ pushed
                \<and> (pushed \<noteq> [] \<longrightarrow> path_relative env (rootDir opts) f \<notin> visited st)
                \<and> (\<forall>item \<in> set pushed. \<exists>lang deps dep r.
                      scan env f = Some (lang, deps) \<and> dep \<in> set deps
                      \<and> parser_classify lang dep = Local
                      \<and> resolveLocal env dep f (rootDir opts) = Some r \<and> r \<noteq> []
                      \<and> depth_below d (maxDepth opts)
                      \<and> item = (path_resolve env (rootDir opts) r, d + 1))))"
proof (intro conjI allI impI)
  from build_loop_returns[OF assms] obtain r where
    "build_loop env opts (initial_state env entries opts) = Some r" by blast
  then show "\<exists>r. buildGraph env entries opts = Some r"
    by (cases r) (simp_all add: buildGraph_def)
next
  fix st assume run: "build_loop env opts (initial_state env entries opts) = Some (Inr st)"
  note fin = build_loop_final[OF run]
  show "distinct (map fst (scanned st))" by (rule inv_logD(5)[OF fin(1)])
  show "fst ` set (scanned st) \<subseteq> visited st" by (rule inv_logD(6)[OF fin(1)])
  show "length (scanned st) \<le> card {f \<in> reachable env opts entries. existsSync env f}"
    by (rule scanned_bounded[OF assms fin(1)])
next
  fix st f d st' assume "visit env opts st f d = Some (Inr st')"
  then show "\<exists>pushed. queue st' = queue st @ pushed
                \<and> (pushed \<noteq> [] \<longrightarrow> path_relative env (rootDir opts) f \<notin> visited st)
                \<and> (\<forall>item \<in> set pushed. \<exists>lang deps dep r.
                      scan env f = Some (lang, deps) \<and> dep \<in> set deps
                      \<and> parser_classify lang dep = Local
                      \<and> resolveLocal env dep f (rootDir opts) = Some r \<and> r \<noteq> []
                      \<and> depth_below d (maxDepth opts)
                      \<and> item = (path_resolve env (rootDir opts) r, d + 1))"
    by (rule visit_pushes)
qed

theorem buildGraph_terminates_bounded_witness:
  "finite {p. existsSync (posix ''/'' chain_files) p}
   \<and> (\<exists>r. buildGraph (posix ''/'' chain_files) [''a.js''] (proj_opts (Limit 1)) = Some r)
   \<and> 2 \<le> card {f \<in> reachable (posix ''/'' chain_files) (proj_opts (Limit 1)) [''a.js''].
                  existsSync (posix ''/'' chain_files) f}"
proof -
  let ?E = "posix ''/'' chain_files"
  let ?O = "proj_opts (Limit 1)"
  note T = buildGraph_terminates_bounded[OF finite_posix, of "''/''" chain_files "[''a.js'']" ?O]
  from chain_scans obtain st where
    run: "build_loop ?E ?O (initial_state ?E [''a.js''] ?O) = Some (Inr st)"
    and sc: "scanned st = [(''a.js'', ''/proj/a.js''), (''b.js'', ''/proj/b.js'')]"
    by (auto split: option.splits sum.splits)
  from T run have "length (scanned st) \<le> card {f \<in> reachable ?E ?O [''a.js'']. existsSync ?E f}"
    by blast
  with sc have "2 \<le> card {f \<in> reachable ?E ?O [''a.js'']. existsSync ?E f}" by simp
  with T finite_posix[of "''/''" chain_files] show ?thesis by blast
qed

section \<open>Nodes and the sources of edges (claim C3)\<close>

text \<open>
  Claim C3: the graph has exactly one node per path that was visited and scanned: the node
  paths are the scan log, which has no duplicates and lies in the visited set, and a
  path of the visited set without a node belongs to a reachable file that was skipped as
  missing or of no recognised language.  The \<^verbatim>\<open>from\<close> of every edge is the path of a
  node.  A turn of the loop on a path that is already visited changes nothing: no node,
  no scan.
\<close>

theorem buildGraph_nodes_edges:
  assumes "buildGraph env entries opts = Some (Inr g)"
  shows "\<exists>st. build_loop env opts (initial_state env entries opts) = Some (Inr st)
           \<and> g = result_graph st
           \<and> map node_path (graph_nodes g) = map fst (scanned st)
           \<and> distinct (map node_path (graph_nodes g))
           \<and> set (map node_path (graph_nodes g)) \<subseteq> visited st
           \<and> (\<forall>p \<in> visited st. p \<in> set (map node_path (graph_nodes g))
                 \<or> (\<exists>f \<in> reachable env opts entries.
                       path_relative env (rootDir opts) f = p \<and> is_skipped env f))
           \<and> (\<forall>e \<in> set (graph_edges g). edge_from e \<in> set (map node_path (graph_nodes g)))
           \<and> (\<forall>s f d. path_relative env (rootDir opts) f \<in> visited s \<longrightarrow>
                  visit env opts s f d = Some (Inr s))"
proof -
  from assms obtain st where
    run: "build_loop env opts (initial_state env entries opts) = Some (Inr st)"
    and g: "g = result_graph st"
    by (rule buildGraph_Inr)
  note fin = build_loop_final[OF run]
  have np: "map node_path (graph_nodes g) = map fst (scanned st)"
    using node_paths[OF fin(2)] g by simp
  have d: "distinct (map node_path (graph_nodes g))"
    using inv_logD(5)[OF fin(1)] np by simp
  have v: "set (map node_path (graph_nodes g)) \<subseteq> visited st"
    using inv_logD(6)[OF fin(1)] np by simp
  have sk: "\<forall>p \<in> visited st. p \<in> set (map node_path (graph_nodes g))
                 \<or> (\<exists>f \<in> reachable env opts entries.
                       path_relative env (rootDir opts) f = p \<and> is_skipped env f)"
    using fin(4) np unfolding inv_visited_def by simp
  have ed: "\<forall>e \<in> set (graph_edges g). edge_from e \<in> set (map node_path (graph_nodes g))"
  proof
    fix e assume "e \<in> set (graph_edges g)"
    with g fin(3) obtain pf where "pf \<in> set (scanned st)" "e \<in> set (file_edges env opts pf)"
      by (auto simp: result_graph_def inv_out_def)
    with file_edges_from[of e env opts pf] np
    show "edge_from e \<in> set (map node_path (graph_nodes g))" by auto
  qed
  have idem: "\<forall>s f d. path_relative env (rootDir opts) f \<in> visited s \<longrightarrow>
                  visit env opts s f d = Some (Inr s)"
    by (simp add: visit_def)
  from run g np d v sk ed idem show ?thesis by blast
qed

theorem buildGraph_nodes_edges_witness:
  "buildGraph (posix ''/'' chain_files) [''a.js''] (proj_opts (Limit 1)) = Some (Inr chain_graph)
   \<and> (\<exists>st. build_loop (posix ''/'' chain_files) (proj_opts (Limit 1))
               (initial_state (posix ''/'' chain_files) [''a.js''] (proj_opts (Limit 1))) = Some (Inr st)
           \<and> chain_graph = result_graph st
           \<and> map node_path (graph_nodes chain_graph) = map fst (scanned st)
           \<and> distinct (map node_path (graph_nodes chain_graph))
           \<and> set (map node_path (graph_nodes chain_graph)) \<subseteq> visited st)"
  using buildGraph_nodes_edges[OF chain_build] chain_build by blast

section \<open>Targets of local edges without a depth limit (claim C4)\<close>

text \<open>
  Claim C4 as stated fails: with \<^verbatim>\<open>maxDepth\<close> unbounded, an entry that requires
  \<^verbatim>\<open>./data.json\<close> gets a local edge to \<^verbatim>\<open>data.json\<close>; the file is dequeued and skipped,
  because its extension belongs to no recognised language, and never becomes a node.
\<close>

theorem local_edge_without_node_counterexample:
  "maxDepth (proj_opts Infinity) = Infinity
   \<and> buildGraph (posix ''/'' json_files) [''index.js''] (proj_opts Infinity) = Some (Inr json_graph)
   \<and> \<lparr> edge_from = ''index.js'', edge_to = ''data.json'', edge_specifier = ''./data.json'',
        edge_type = Local \<rparr> \<in> set (graph_edges json_graph)
   \<and> ''data.json'' \<notin> set (map node_path (graph_nodes json_graph))"
  using json_build by (simp add: json_graph_def proj_opts_def)

text \<open>
  Claim C4, amended: with \<^verbatim>\<open>maxDepth\<close> unbounded, and path functions for which the
  root-relative path of a file resolved from a root-relative path is that path again (the
  POSIX functions are such), the \<^verbatim>\<open>to\<close> path of every local edge was dequeued: it is in
  the visited set, and the file \<open>t\<close> enqueued for the edge is reachable and has \<^verbatim>\<open>to\<close> as
  its root-relative path.  \<^verbatim>\<open>to\<close> is the path of a node unless some reachable file with
  that root-relative path is missing or of no recognised language; where \<open>t\<close> is the only
  reachable file with that path, unless \<open>t\<close> itself is.  So a local edge is left without a
  node not only by a depth limit but also by a target of unrecognised type, such as
  \<^verbatim>\<open>./data.json\<close>, and by an entry such as \<^verbatim>\<open>/proj/b.js/\<close> that does not exist and
  shares the root-relative path of the target.
\<close>

theorem local_edge_target_unbounded:
  assumes "maxDepth opts = Infinity"
    and "buildGraph env entries opts = Some (Inr g)"
    and "e \<in> set (graph_edges g)" and "edge_type e = Local"
    and law: "\<And>x. path_relative env (rootDir opts)
                 (path_resolve env (rootDir opts) (path_relative env (rootDir opts) x))
               = path_relative env (rootDir opts) x"
    and t: "t = path_resolve env (rootDir opts) (edge_to e)"
  shows "\<exists>st. build_loop env opts (initial_state env entries opts) = Some (Inr st)
          \<and> g = result_graph st
          \<and> t \<in> reachable env opts entries
          \<and> path_relative env (rootDir opts) t = edge_to e
          \<and> edge_to e \<in> visited st
          \<and> (edge_to e \<in> set (map node_path (graph_nodes g))
               \<or> (\<exists>f \<in> reachable env opts entries.
                     path_relative env (rootDir opts) f = edge_to e
                     \<and> (\<not> existsSync env f \<or> detectLanguage env f = None)))
          \<and> ((\<forall>f \<in> reachable env opts entries.
                  path_relative env (rootDir opts) f = edge_to e \<longrightarrow> f = t)
               \<longrightarrow> edge_to e \<in> set (map node_path (graph_nodes g))
                   \<or> \<not> existsSync env t \<or> detectLanguage env t = None)"
proof -
  let ?p = "edge_to e"
  from assms(2) obtain st where
    run: "build_loop env opts (initial_state env entries opts) = Some (Inr st)"
    and g: "g = result_graph st"
    by (rule buildGraph_Inr)
  note fin = build_loop_final[OF run]
  from assms(3) g fin(3) obtain pf where pf: "pf \<in> set (scanned st)"
    "e \<in> set (file_edges env opts pf)"
    by (auto simp: result_graph_def inv_out_def)
  from pf(2) obtain lang deps where sc: "scan env (snd pf) = Some (lang, deps)"
    and "e \<in> set (concat (map (dep_edges env opts lang (snd pf) (fst pf)) deps))"
    by (cases "scan env (snd pf)") (auto simp: file_edges_def)
  then obtain dep where
    dep: "dep \<in> set deps" "e \<in> set (dep_edges env opts lang (snd pf) (fst pf) dep)"
    by auto
  note lt = dep_edges_local[OF dep(2) assms(4)]
  from local_target_in_targets[OF lt dep(1)]
  have "?p \<in> set (local_targets env opts lang (snd pf) deps)" .
  from reachable.import[OF inv_logD(3)[OF fin(1) pf(1)] sc this] t
  have reach: "t \<in> reachable env opts entries" by simp
  from local_target_Some[OF lt]
  have "resolveLocal env dep (snd pf) (rootDir opts) = Some ?p" by simp
  from resolveLocal_exists[OF this] obtain x where
    x: "?p = path_relative env (rootDir opts) x" by blast
  have rt: "path_relative env (rootDir opts) t = ?p"
    unfolding t by (subst (1 2) x) (rule law)
  from assms(3) g have ein: "e \<in> set (edges st)"
    by (simp add: result_graph_def)
  from build_loop_final_targets[OF run assms(1)] ein assms(4)
  have "(\<exists>d. (path_resolve env (rootDir opts) ?p, d) \<in> set (queue st))
        \<or> path_relative env (rootDir opts) (path_resolve env (rootDir opts) ?p) \<in> visited st"
    unfolding inv_targets_def by blast
  with fin(5) have "path_relative env (rootDir opts) t \<in> visited st"
    unfolding t by simp
  then have vis: "?p \<in> visited st"
    unfolding rt .
  with fin(4) have "?p \<in> fst ` set (scanned st)
      \<or> (\<exists>f \<in> reachable env opts entries.
            path_relative env (rootDir opts) f = ?p \<and> is_skipped env f)"
    unfolding inv_visited_def by blast
  with node_paths[OF fin(2)] g
  have alt: "?p \<in> set (map node_path (graph_nodes g))
      \<or> (\<exists>f \<in> reachable env opts entries.
            path_relative env (rootDir opts) f = ?p
            \<and> (\<not> existsSync env f \<or> detectLanguage env f = None))"
    unfolding is_skipped_def by auto
  have only: "(\<forall>f \<in> reachable env opts entries.
                  path_relative env (rootDir opts) f = ?p \<longrightarrow> f = t)
               \<longrightarrow> ?p \<in> set (map node_path (graph_nodes g))
                   \<or> \<not> existsSync env t \<or> detectLanguage env t = None"
  proof (intro impI)
    assume u: "\<forall>f \<in> reachable env opts entries.
                 path_relative env (rootDir opts) f = ?p \<longrightarrow> f = t"
    from alt show "?p \<in> set (map node_path (graph_nodes g))
                   \<or> \<not> existsSync env t \<or> detectLanguage env t = None"
    proof
      assume "?p \<in> set (map node_path (graph_nodes g))"
      then show ?thesis by (rule disjI1)
    next
      assume "\<exists>f \<in> reachable env opts entries.
            path_relative env (rootDir opts) f = ?p
            \<and> (\<not> existsSync env f \<or> detectLanguage env f = None)"
      then obtain f where f: "f \<in> reachable env opts entries"
        "path_relative env (rootDir opts) f = ?p"
        "\<not> existsSync env f \<or> detectLanguage env f = None"
        by (elim bexE conjE)
      from bspec[OF u f(1)] f(2) have "f = t" by (rule mp)
      with f(3) show ?thesis by simp
    qed
  qed
  show ?thesis
  proof (intro exI[of _ st] conjI)
    show "build_loop env opts (initial_state env entries opts) = Some (Inr st)" by (rule run)
    show "g = result_graph st" by (rule g)
    show "t \<in> reachable env opts entries" by (rule reach)
    show "path_relative env (rootDir opts) t = ?p" by (rule rt)
    show "?p \<in> visited st" by (rule vis)
    show "?p \<in> set (map node_path (graph_nodes g))
      \<or> (\<exists>f \<in> reachable env opts entries.
            path_relative env (rootDir opts) f = ?p
            \<and> (\<not> existsSync env f \<or> detectLanguage env f = None))" by (rule alt)
    show "(\<forall>f \<in> reachable env opts entries.
                  path_relative env (rootDir opts) f = ?p \<longrightarrow> f = t)
               \<longrightarrow> ?p \<in> set (map node_path (graph_nodes g))
                   \<or> \<not> existsSync env t \<or> detectLanguage env t = None" by (rule only)
  qed
qed

theorem local_edge_target_unbounded_witness:
  "maxDepth (proj_opts Infinity) = Infinity
   \<and> buildGraph (posix ''/'' json_files) [''index.js''] (proj_opts Infinity) = Some (Inr json_graph)
   \<and> \<lparr> edge_from = ''index.js'', edge_to = ''data.json'', edge_specifier = ''./data.json'',
        edge_type = Local \<rparr> \<in> set (graph_edges json_graph)
   \<and> ''/proj/data.json'' \<in> reachable (posix ''/'' json_files) (proj_opts Infinity) [''index.js'']
   \<and> path_relative (posix ''/'' json_files) ''/proj'' ''/proj/data.json'' = ''data.json''
   \<and> ''data.json'' \<notin> set (map node_path (graph_nodes json_graph))
   \<and> existsSync (posix ''/'' json_files) ''/proj/data.json''
   \<and> detectLanguage (posix ''/'' json_files) ''/proj/data.json'' = None
   \<and> buildGraph (posix ''/'' alias_files) [''/proj/b.js/'', ''a.js''] (proj_opts Infinity)
        = Some (Inr alias_graph)
   \<and> \<lparr> edge_from = ''a.js'', edge_to = ''b.js'', edge_specifier = ''./b'',
        edge_type = Local \<rparr> \<in> set (graph_edges alias_graph)
   \<and> ''b.js'' \<notin> set (map node_path (graph_nodes alias_graph))
   \<and> (\<exists>f \<in> reachable (posix ''/'' alias_files) (proj_opts Infinity) [''/proj/b.js/'', ''a.js''].
         path_relative (posix ''/'' alias_files) ''/proj'' f = ''b.js''
         \<and> (\<not> existsSync (posix ''/'' alias_files) f
              \<or> detectLanguage (posix ''/'' alias_files) f = None))"
proof -
  let ?E = "posix ''/'' json_files"
  let ?A = "posix ''/'' alias_files"
  let ?O = "proj_opts Infinity"
  let ?e = "\<lparr> edge_from = ''index.js'', edge_to = ''data.json'', edge_specifier = ''./data.json'',
        edge_type = Local \<rparr>"
  let ?a = "\<lparr> edge_from = ''a.js'', edge_to = ''b.js'', edge_specifier = ''./b'',
        edge_type = Local \<rparr>"
  have m: "maxDepth ?O = Infinity" by (simp add: proj_opts_def)
  have root: "rootDir ?O = ''/proj''" by (simp add: proj_opts_def)
  have cwd: "posix_isAbsolute ''/''" by code_simp
  have e: "?e \<in> set (graph_edges json_graph)" by (simp add: json_graph_def)
  have a: "?a \<in> set (graph_edges alias_graph)" by (simp add: alias_graph_def)
  have t: "''/proj/data.json'' = path_resolve ?E (rootDir ?O) (edge_to ?e)" by code_simp
  have i: "path_relative ?E (rootDir ?O) ''/proj/index.js'' \<noteq> ''data.json''" by code_simp
  have x: "existsSync ?E ''/proj/data.json''" by code_simp
  have n: "''data.json'' \<notin> set (map node_path (graph_nodes json_graph))"
    by (simp add: json_graph_def)
  have na: "''b.js'' \<notin> set (map node_path (graph_nodes alias_graph))"
    by (simp add: alias_graph_def)
  have only: "\<forall>f \<in> reachable ?E ?O [''index.js''].
                path_relative ?E (rootDir ?O) f = ''data.json'' \<longrightarrow> f = ''/proj/data.json''"
    using json_reachable i by blast
  from local_edge_target_unbounded[OF m json_build e _ posix_path_law[OF cwd] t]
  have J: "''/proj/data.json'' \<in> reachable ?E ?O [''index.js'']
      \<and> path_relative ?E ''/proj'' ''/proj/data.json'' = ''data.json''
      \<and> detectLanguage ?E ''/proj/data.json'' = None"
    using only n x root by auto
  from local_edge_target_unbounded[OF m alias_build a _ posix_path_law[OF cwd] refl]
  have K: "\<exists>f \<in> reachable ?A ?O [''/proj/b.js/'', ''a.js''].
         path_relative ?A ''/proj'' f = ''b.js''
         \<and> (\<not> existsSync ?A f \<or> detectLanguage ?A f = None)"
    using na root by auto
  from m json_build e J n x alias_build a na K show ?thesis by blast
qed

section \<open>A chain cut at depth one (claim C5)\<close>

text \<open>
  Claim C5: let the only local import of the entry file A resolve to B, and the only local
  import of B resolve to C, where B is dequeued under the path that A's edge points to and
  that path differs from A's.  Built from A with \<^verbatim>\<open>maxDepth = 1\<close>, the graph has exactly
  the nodes A and B, in this order, and its local edges are A\<rightarrow>B and B\<rightarrow>C: the edge to C
  is recorded although C is never enqueued or scanned.
\<close>

theorem chain_depth_one:
  assumes limit: "maxDepth opts = Limit 1"
    and a: "a = entry_file env opts ea" and b: "b = path_resolve env (rootDir opts) rb"
    and pa: "pa = path_relative env (rootDir opts) a"
    and roundtrip: "path_relative env (rootDir opts) b = rb"
    and scan_a: "scan env a = Some (la, da)" and targets_a: "local_targets env opts la a da = [rb]"
    and scan_b: "scan env b = Some (lb, db)" and targets_b: "local_targets env opts lb b db = [rc]"
    and diff: "rb \<noteq> pa"
  shows "\<exists>g. buildGraph env [ea] opts = Some (Inr g)
            \<and> map node_path (graph_nodes g) = [pa, rb]
            \<and> map (\<lambda>e. (edge_from e, edge_to e))
                   (filter (\<lambda>e. edge_type e = Local) (graph_edges g)) = [(pa, rb), (rb, rc)]"
proof -
  let ?R = "rootDir opts"
  let ?s0 = "initial_state env [ea] opts"
  have q0: "queue ?s0 = [(a, 0)]" by (simp add: initial_state_def a entry_file_def)
  define s1 where "s1 = foldl (processDep env opts la a pa 0)
               (?s0\<lparr> queue := [], visited := insert pa (visited (?s0\<lparr> queue := [] \<rparr>)),
                     nodes := map_set pa \<lparr> node_path = pa, node_language = la,
                                           node_depCount = length da \<rparr> (nodes (?s0\<lparr> queue := [] \<rparr>)),
                     scanned := scanned (?s0\<lparr> queue := [] \<rparr>) @ [(pa, a)] \<rparr>) da"
  have v0: "visit env opts (?s0\<lparr> queue := [] \<rparr>) a 0 = Some (Inr s1)"
    unfolding s1_def pa
    by (subst visit_scan[OF _ scan_a]) (simp_all add: initial_state_def)
  note f1 = visit_scanned_fields[OF s1_def[unfolded pa], folded pa]
  have q1: "queue s1 = [(b, 1)]"
    using f1(4) limit targets_a by (simp add: pushes_targets b initial_state_def)
  have vis1: "visited s1 = {pa}" using f1(2) by (simp add: initial_state_def)
  have nodes1: "map fst (nodes s1) = [pa]"
    using f1(3) by (simp add: initial_state_def map_set_def)
  have edges1: "map (\<lambda>e. (edge_from e, edge_to e)) (filter (\<lambda>e. edge_type e = Local) (edges s1))
                  = [(pa, rb)]"
    using f1(5) targets_a by (simp add: local_edges_targets initial_state_def)
  define s2 where "s2 = foldl (processDep env opts lb b rb 1)
               (s1\<lparr> queue := [], visited := insert rb (visited (s1\<lparr> queue := [] \<rparr>)),
                     nodes := map_set rb \<lparr> node_path = rb, node_language = lb,
                                           node_depCount = length db \<rparr> (nodes (s1\<lparr> queue := [] \<rparr>)),
                     scanned := scanned (s1\<lparr> queue := [] \<rparr>) @ [(rb, b)] \<rparr>) db"
  have v1: "visit env opts (s1\<lparr> queue := [] \<rparr>) b 1 = Some (Inr s2)"
    unfolding s2_def
    by (subst visit_scan[OF _ scan_b]) (simp_all add: roundtrip vis1 diff)
  note f2 = visit_scanned_fields[OF s2_def]
  have q2: "queue s2 = []"
    using f2(4) limit by (simp add: pushes_targets)
  have nodes2: "map fst (nodes s2) = [pa, rb]"
  proof -
    from nodes1 diff have "rb \<notin> fst ` set (nodes s1)"
      by (metis empty_iff empty_set insert_iff list.simps(15) set_map)
    with f2(3) nodes1 show ?thesis by (simp add: map_set_def)
  qed
  have edges2: "map (\<lambda>e. (edge_from e, edge_to e)) (filter (\<lambda>e. edge_type e = Local) (edges s2))
                  = [(pa, rb), (rb, rc)]"
    using f2(5) edges1 targets_b by (simp add: local_edges_targets)
  have loop2: "build_loop env opts s2 = Some (Inr s2)"
    using q2 by (subst build_loop.simps) simp
  have loop1: "build_loop env opts s1 = Some (Inr s2)"
    using q1 v1 loop2 by (subst build_loop.simps) simp
  have loop0: "build_loop env opts ?s0 = Some (Inr s2)"
    using q0 v0 loop1 by (subst build_loop.simps) simp
  then have run: "buildGraph env [ea] opts = Some (Inr (result_graph s2))"
    by (simp add: buildGraph_def)
  have "inv_nodes s2"
    using build_loop_final(2)[OF loop0] .
  from node_paths[OF this] build_loop_final(1,2)[OF loop0] nodes2
  have "map node_path (graph_nodes (result_graph s2)) = [pa, rb]"
    by (simp add: inv_nodes_def)
  with run edges2 show ?thesis by (simp add: result_graph_def)
qed

theorem chain_depth_one_witness:
  "buildGraph (posix ''/'' chain_files) [''a.js''] (proj_opts (Limit 1)) = Some (Inr chain_graph)
   \<and> (\<exists>g. buildGraph (posix ''/'' chain_files) [''a.js''] (proj_opts (Limit 1)) = Some (Inr g)
          \<and> map node_path (graph_nodes g) = [''a.js'', ''b.js'']
          \<and> map (\<lambda>e. (edge_from e, edge_to e)) (filter (\<lambda>e. edge_type e = Local) (graph_edges g))
               = [(''a.js'', ''b.js''), (''b.js'', ''c.js'')])"
proof -
  let ?E = "posix ''/'' chain_files"
  let ?O = "proj_opts (Limit 1)"
  have 1: "maxDepth ?O = Limit 1" by (simp add: proj_opts_def)
  have 2: "''/proj/a.js'' = entry_file ?E ?O ''a.js''" by code_simp
  have 3: "''/proj/b.js'' = path_resolve ?E (rootDir ?O) ''b.js''" by code_simp
  have 4: "''a.js'' = path_relative ?E (rootDir ?O) ''/proj/a.js''" by code_simp
  have 5: "path_relative ?E (rootDir ?O) ''/proj/b.js'' = ''b.js''" by code_simp
  have 6: "scan ?E ''/proj/a.js'' = Some (JavaScript, [''./b''])" by code_simp
  have 7: "local_targets ?E ?O JavaScript ''/proj/a.js'' [''./b''] = [''b.js'']" by code_simp
  have 8: "scan ?E ''/proj/b.js'' = Some (JavaScript, [''./c''])" by code_simp
  have 9: "local_targets ?E ?O JavaScript ''/proj/b.js'' [''./c''] = [''c.js'']" by code_simp
  have 10: "''b.js'' \<noteq> ''a.js''" by simp
  from chain_depth_one[OF 1 2 3 4 5 6 7 8 9 10] chain_build show ?thesis by simp
qed

section \<open>Unresolved local imports (claim C8)\<close>

text \<open>
  Claim C8: for a local specifier that \<^verbatim>\<open>resolveLocal\<close> cannot resolve, the loop body
  appends one unresolved record with the file's path and the raw specifier and changes
  nothing else (no edge, no queue item); and in every finished build in which the file
  was scanned, that record occurs exactly once among the unresolved imports and no edge
  from the file carries the specifier.
\<close>

theorem unresolved_import_recorded:
  assumes "parser_classify lang dep = Local"
    and "resolveLocal env dep f (rootDir opts) = None"
  shows "processDep env opts lang f p d st dep =
           st\<lparr> unresolved := unresolved st @
                 [\<lparr> unresolved_from = p, unresolved_specifier = dep \<rparr>] \<rparr>
       \<and> (\<forall>entries st' deps.
             build_loop env opts (initial_state env entries opts) = Some (Inr st')
             \<and> (p, f) \<in> set (scanned st') \<and> scan env f = Some (lang, deps) \<and> dep \<in> set deps
             \<longrightarrow> count_list (unresolved st')
                    \<lparr> unresolved_from = p, unresolved_specifier = dep \<rparr> = 1
               \<and> (\<forall>e \<in> set (edges st'). \<not> (edge_from e = p \<and> edge_specifier e = dep)))"
proof (intro conjI allI impI)
  show "processDep env opts lang f p d st dep =
           st\<lparr> unresolved := unresolved st @
                 [\<lparr> unresolved_from = p, unresolved_specifier = dep \<rparr>] \<rparr>"
    using assms by (simp add: processDep_def)
next
  fix entries st' deps
  assume h: "build_loop env opts (initial_state env entries opts) = Some (Inr st')
             \<and> (p, f) \<in> set (scanned st') \<and> scan env f = Some (lang, deps) \<and> dep \<in> set deps"
  then have run: "build_loop env opts (initial_state env entries opts) = Some (Inr st')"
    and pf: "(p, f) \<in> set (scanned st')" and sc: "scan env f = Some (lang, deps)"
    and dep: "dep \<in> set deps" by simp_all
  note fin = build_loop_final[OF run]
  let ?r = "\<lparr> unresolved_from = p, unresolved_specifier = dep \<rparr>"
  from assms have none: "local_target env opts lang f dep = None"
    by (simp add: local_target_def)
  with assms(1) have "?r \<in> set (dep_unresolved env opts lang f p dep)"
    by (simp add: dep_unresolved_def)
  with dep sc have "?r \<in> set (file_unresolved env opts (p, f))"
    by (auto simp: file_unresolved_def)
  with pf fin(3) have mem: "?r \<in> set (unresolved st')"
    by (auto simp: inv_out_def)
  from distinct_unresolved_log[OF inv_logD(5)[OF fin(1)]] fin(3)
  have "distinct (unresolved st')" by (simp add: inv_out_def)
  from count_one[OF this mem] show "count_list (unresolved st') ?r = 1" .
  show "\<forall>e \<in> set (edges st'). \<not> (edge_from e = p \<and> edge_specifier e = dep)"
  proof (intro ballI notI)
    fix e assume e: "e \<in> set (edges st')" and eq: "edge_from e = p \<and> edge_specifier e = dep"
    from e fin(3) obtain pf' where pf': "pf' \<in> set (scanned st')"
      "e \<in> set (file_edges env opts pf')"
      by (auto simp: inv_out_def)
    from file_edges_from[OF pf'(2)] eq have "fst pf' = p" by simp
    with pf'(1) have "(p, snd pf') \<in> set (scanned st')" by (metis prod.collapse)
    from distinct_fst_unique[OF inv_logD(5)[OF fin(1)] pf this] have "snd pf' = f" by simp
    with \<open>fst pf' = p\<close> have "pf' = (p, f)" by (metis prod.collapse)
    with pf'(2) sc obtain dep' where "dep' \<in> set deps"
      "e \<in> set (dep_edges env opts lang f p dep')"
      by (auto simp: file_edges_def)
    with dep_edges_from[of e env opts lang f p dep'] eq
    have "e \<in> set (dep_edges env opts lang f p dep)" by simp
    with assms(1) none show False by (simp add: dep_edges_def)
  qed
qed

theorem unresolved_import_recorded_witness:
  "parser_classify JavaScript ''./missing'' = Local
   \<and> resolveLocal (posix ''/'' missing_files) ''./missing'' ''/proj/index.js'' ''/proj'' = None
   \<and> (\<exists>st. build_loop (posix ''/'' missing_files) (proj_opts Infinity)
               (initial_state (posix ''/'' missing_files) [''index.js''] (proj_opts Infinity)) = Some (Inr st)
          \<and> (''index.js'', ''/proj/index.js'') \<in> set (scanned st)
          \<and> count_list (unresolved st)
               \<lparr> unresolved_from = ''index.js'', unresolved_specifier = ''./missing'' \<rparr> = 1
          \<and> edges st = [])"
proof -
  let ?E = "posix ''/'' missing_files"
  let ?O = "proj_opts Infinity"
  have c: "parser_classify JavaScript ''./missing'' = Local" by code_simp
  have r: "resolveLocal ?E ''./missing'' ''/proj/index.js'' (rootDir ?O) = None" by code_simp
  have r': "resolveLocal ?E ''./missing'' ''/proj/index.js'' ''/proj'' = None" by code_simp
  have s: "scan ?E ''/proj/index.js'' = Some (JavaScript, [''./missing''])" by code_simp
  from missing_scans obtain st where
    run: "build_loop ?E ?O (initial_state ?E [''index.js''] ?O) = Some (Inr st)"
    and sc: "scanned st = [(''index.js'', ''/proj/index.js'')]" and ed: "edges st = []"
    by (auto split: option.splits sum.splits)
  from unresolved_import_recorded[OF c r, of "''index.js''"] run sc s
  have "count_list (unresolved st)
          \<lparr> unresolved_from = ''index.js'', unresolved_specifier = ''./missing'' \<rparr> = 1"
    by (metis list.set_intros(1))
  with c r' run sc ed show ?thesis by auto
qed

section \<open>Empty entry list (claim C10)\<close>

text \<open>
  Claim C10: on an empty list of entries \<^verbatim>\<open>buildGraph\<close> returns, without raising, the
  graph whose nodes, edges, externals, builtins and unresolved imports are all empty.
\<close>

theorem buildGraph_empty_entries:
  "buildGraph env [] opts =
     Some (Inr \<lparr> graph_nodes = [], graph_edges = [], graph_externals = [],
                 graph_builtins = [], graph_unresolved = [] \<rparr>)"
  by (simp add: buildGraph_def initial_state_def build_loop.simps result_graph_def)

end
